theory Spec2Isabelle
  imports Main "HOL-Library.Char_ord"
begin

section \<open>A deterministic single-tape Turing machine simulator\<close>

text \<open>
  A shallow embedding of \<^verbatim>\<open>src/core\<close>: \<^verbatim>\<open>state.py\<close>, \<^verbatim>\<open>transition.py\<close>,
  \<^verbatim>\<open>machine_config.py\<close>, \<^verbatim>\<open>instant_description.py\<close> and \<^verbatim>\<open>machine.py\<close>.

  A Python \<^verbatim>\<open>str\<close> is a \<^typ>\<open>string\<close>, a Python \<^verbatim>\<open>int\<close> is an \<^typ>\<open>int\<close>, a list is a
  list, a \<^verbatim>\<open>dict\<close> is a map and a \<^verbatim>\<open>set\<close> that is only tested for membership is a set.
  One character of an input string is a \<^typ>\<open>char\<close>; where Python handles it as a string of
  length one (a tape cell, a member of the alphabet) it is the singleton list \<open>[c]\<close>.
  Every \<^verbatim>\<open>raise\<close> is a value \<open>Inl e\<close> of the sum type, and a run that never returns is \<open>None\<close>.
\<close>

subsection \<open>Errors\<close>

text \<open>
  The source raises \<^verbatim>\<open>ValueError\<close> everywhere and tells the failures apart by message. One
  constructor stands for each group of raise sites, named after the error kind:
  \<^item> \<open>InvalidRule f\<close>: \<^verbatim>\<open>Transition.__post_init__\<close>, \<open>f\<close> the offending field;
  \<^item> \<open>InvalidMachine f\<close>: \<^verbatim>\<open>MachineConfig.__post_init__\<close>, \<open>f\<close> the offending field;
  \<^item> \<open>InvalidStateName\<close>: \<^verbatim>\<open>State.__post_init__\<close>;
  \<^item> \<open>DuplicateTransition key\<close>: "Duplicate transition detected for state/symbol pair ...";
  \<^item> \<open>DanglingState Source s\<close>: "Transition refers to undefined state 's'.",
    \<open>DanglingState Destination s\<close>: "Transition jumps to undefined state 's'.";
  \<^item> \<open>InvalidSymbol msg\<close>: raised by \<^verbatim>\<open>_validate_input_string\<close>, \<open>msg\<close> the whole message;
  \<^item> \<open>InvalidSnapshot f\<close>: \<^verbatim>\<open>InstantDescription.__post_init__\<close>, \<open>f\<close> the offending field;
  \<^item> \<open>IndexError\<close>: a list index out of range.
\<close>

datatype role = Source | Destination

datatype error =
    InvalidRule string
  | InvalidMachine string
  | InvalidStateName
  | is_DuplicateTransition: DuplicateTransition "string \<times> string"
  | is_DanglingState: DanglingState role string
  | is_InvalidSymbol: InvalidSymbol string
  | InvalidSnapshot string
  | IndexError

subsection \<open>state.py\<close>

datatype state = State (name: string)

definition State_post_init :: "state \<Rightarrow> error + state" where
  "State_post_init s = (if name s = [] then Inl InvalidStateName else Inr s)"

subsection \<open>transition.py\<close>

record transition =
  current_state :: string
  read_symbol :: string
  write_symbol :: string
  move :: string
  next_state :: string

definition VALID_MOVES :: "string set" where
  "VALID_MOVES = {''L'', ''R'', ''S''}"

text \<open>The move is checked first, then the four text fields in the order of the source's loop.\<close>

definition Transition_post_init :: "transition \<Rightarrow> error + transition" where
  "Transition_post_init t =
     (if move t \<notin> VALID_MOVES then Inl (InvalidRule ''move'')
      else if current_state t = [] then Inl (InvalidRule ''current_state'')
      else if read_symbol t = [] then Inl (InvalidRule ''read_symbol'')
      else if write_symbol t = [] then Inl (InvalidRule ''write_symbol'')
      else if next_state t = [] then Inl (InvalidRule ''next_state'')
      else Inr t)"

definition signature :: "transition \<Rightarrow> string \<times> string" where
  "signature t = (current_state t, read_symbol t)"

subsection \<open>machine_config.py\<close>

record machine_config =
  states :: "string list"
  input_alphabet :: "string list"
  tape_alphabet :: "string list"
  initial_state :: string
  accept_states :: "string list"
  transitions :: "transition list"
  inputs :: "string list option"
  blank_symbol :: string

text \<open>
  The checks of \<^verbatim>\<open>MachineConfig.__post_init__\<close> in the order of the source. The
  \<^verbatim>\<open>isinstance\<close> tests are the types of the record's fields, and the defensive copies
  are the identity on values, so the normalised definition is the definition itself.
\<close>

definition MachineConfig_post_init :: "machine_config \<Rightarrow> error + machine_config" where
  "MachineConfig_post_init c =
     (if states c = [] then Inl (InvalidMachine ''states'')
      else if \<not> set (input_alphabet c) \<subseteq> set (tape_alphabet c)
        then Inl (InvalidMachine ''input_alphabet'')
      else if initial_state c = [] then Inl (InvalidMachine ''initial_state'')
      else if initial_state c \<notin> set (states c) then Inl (InvalidMachine ''initial_state'')
      else if filter (\<lambda>s. s \<notin> set (states c)) (accept_states c) \<noteq> []
        then Inl (InvalidMachine ''accept_states'')
      else if blank_symbol c \<notin> set (tape_alphabet c) then Inl (InvalidMachine ''blank_symbol'')
      else if transitions c = [] then Inl (InvalidMachine ''transitions'')
      else Inr c)"

text \<open>
  A Machine Definition as the engine receives it: a \<^verbatim>\<open>MachineConfig\<close> object whose
  \<^verbatim>\<open>__post_init__\<close> has passed, holding \<^verbatim>\<open>Transition\<close> objects whose \<^verbatim>\<open>__post_init__\<close>
  has passed.
\<close>

definition validated :: "machine_config \<Rightarrow> bool" where
  "validated c \<longleftrightarrow>
     MachineConfig_post_init c = Inr c \<and>
     list_all (\<lambda>t. Transition_post_init t = Inr t) (transitions c)"

subsection \<open>instant_description.py\<close>

record instant_description =
  state :: string
  tape :: string
  head_position :: int

definition InstantDescription_post_init :: "instant_description \<Rightarrow> error + instant_description" where
  "InstantDescription_post_init d =
     (if state d = [] then Inl (InvalidSnapshot ''state'')
      else if head_position d < 0 then Inl (InvalidSnapshot ''head_position'')
      else Inr d)"

subsection \<open>Python lists and strings\<close>

text \<open>\<^verbatim>\<open>xs[i]\<close> and \<^verbatim>\<open>xs[i] = v\<close>: a negative index counts from the end, an index out of range raises.\<close>

definition list_getitem :: "'a list \<Rightarrow> int \<Rightarrow> error + 'a" where
  "list_getitem xs i =
     (let n = int (length xs); j = (if i < 0 then i + n else i)
      in if 0 \<le> j \<and> j < n then Inr (xs ! nat j) else Inl IndexError)"

definition list_setitem :: "'a list \<Rightarrow> int \<Rightarrow> 'a \<Rightarrow> error + 'a list" where
  "list_setitem xs i v =
     (let n = int (length xs); j = (if i < 0 then i + n else i)
      in if 0 \<le> j \<and> j < n then Inr (xs[nat j := v]) else Inl IndexError)"

text \<open>\<^verbatim>\<open>sep.join(xs)\<close>.\<close>

fun join :: "string \<Rightarrow> string list \<Rightarrow> string" where
  "join sep [] = []"
| "join sep [x] = x"
| "join sep (x # y # ys) = x @ sep @ join sep (y # ys)"

subsection \<open>machine.py: construction\<close>

record machine =
  m_config :: machine_config
  m_states :: "string \<rightharpoonup> state"
  m_accept_states :: "string set"
  m_blank_symbol :: string
  m_max_steps :: "int option"
  m_transition_map :: "string \<times> string \<rightharpoonup> transition"

text \<open>
  The dictionary comprehension \<^verbatim>\<open>{name: State(name) for name in config.states}\<close>, the
  dictionary built so far as the first argument.
\<close>

fun build_states :: "(string \<rightharpoonup> state) \<Rightarrow> string list \<Rightarrow> error + (string \<rightharpoonup> state)" where
  "build_states d [] = Inr d"
| "build_states d (n # ns) =
     (case State_post_init (State n) of
        Inl e \<Rightarrow> Inl e
      | Inr s \<Rightarrow> build_states (d(n \<mapsto> s)) ns)"

text \<open>
  \<^verbatim>\<open>Machine._build_transition_map\<close>: the loop over the rules, with \<^verbatim>\<open>self._states\<close> as
  \<open>sts\<close> and the dictionary built so far as \<open>tm\<close>.
\<close>

fun build_transition_map ::
  "(string \<rightharpoonup> state) \<Rightarrow> (string \<times> string \<rightharpoonup> transition) \<Rightarrow> transition list
     \<Rightarrow> error + (string \<times> string \<rightharpoonup> transition)" where
  "build_transition_map sts tm [] = Inr tm"
| "build_transition_map sts tm (t # ts) =
     (let key = signature t in
      if tm key \<noteq> None then Inl (DuplicateTransition key)
      else if sts (current_state t) = None then Inl (DanglingState Source (current_state t))
      else if sts (next_state t) = None then Inl (DanglingState Destination (next_state t))
      else build_transition_map sts (tm(key \<mapsto> t)) ts)"

text \<open>\<^verbatim>\<open>Machine.__init__(config, max_steps=ms)\<close>.\<close>

definition Machine_init :: "machine_config \<Rightarrow> int option \<Rightarrow> error + machine" where
  "Machine_init c ms =
     (case build_states Map.empty (states c) of
        Inl e \<Rightarrow> Inl e
      | Inr sts \<Rightarrow>
          (case build_transition_map sts Map.empty (transitions c) of
             Inl e \<Rightarrow> Inl e
           | Inr tm \<Rightarrow>
               Inr \<lparr>m_config = c, m_states = sts, m_accept_states = set (accept_states c),
                    m_blank_symbol = blank_symbol c, m_max_steps = ms,
                    m_transition_map = tm\<rparr>))"

subsection \<open>machine.py: the helpers of run\<close>

text \<open>
  \<^verbatim>\<open>Machine._validate_input_string\<close>. \<^verbatim>\<open>sorted(set(invalid_symbols))\<close> sorts strings of length
  one, that is by code point: the characters without repetition, sorted.
\<close>

definition invalid_symbols :: "machine \<Rightarrow> string \<Rightarrow> char list" where
  "invalid_symbols m input_string =
     filter (\<lambda>ch. [ch] \<notin> set (input_alphabet (m_config m))) input_string"

definition validate_input_string :: "machine \<Rightarrow> string \<Rightarrow> error + unit" where
  "validate_input_string m input_string =
     (if invalid_symbols m input_string \<noteq> [] then
        Inl (InvalidSymbol
          (''Input string contains symbols outside the input alphabet: '' @
           join '', '' (map (\<lambda>ch. [ch]) (sort (remdups (invalid_symbols m input_string))))))
      else Inr ())"

text \<open>\<^verbatim>\<open>Machine._initialize_tape\<close>.\<close>

definition initialize_tape :: "machine \<Rightarrow> string \<Rightarrow> string list" where
  "initialize_tape m input_string =
     (if input_string = [] then [m_blank_symbol m] else map (\<lambda>ch. [ch]) input_string)"

text \<open>
  \<^verbatim>\<open>Machine._move_head\<close> mutates the tape in place and returns the new head index: the
  model returns both.
\<close>

definition move_head :: "machine \<Rightarrow> int \<Rightarrow> string \<Rightarrow> string list \<Rightarrow> int \<times> string list" where
  "move_head m head_index mv tp =
     (if mv = ''L'' then
        (if head_index = 0 then (0, m_blank_symbol m # tp) else (head_index - 1, tp))
      else if mv = ''R'' then
        (if head_index + 1 = int (length tp) then (head_index + 1, tp @ [m_blank_symbol m])
         else (head_index + 1, tp))
      else (head_index, tp))"

text \<open>\<^verbatim>\<open>Machine._snapshot\<close>: the tape is joined into one string, so a snapshot is a copy.\<close>

definition snapshot :: "string \<Rightarrow> string list \<Rightarrow> int \<Rightarrow> error + instant_description" where
  "snapshot q tp head_index =
     InstantDescription_post_init \<lparr>state = q, tape = concat tp, head_position = head_index\<rparr>"

subsection \<open>machine.py: run\<close>

text \<open>
  The locals of the loop: the tape, the head index and the current state.
\<close>

record locals =
  l_tape :: "string list"
  l_head_index :: int
  l_current_state :: string

text \<open>
  The body of the \<^verbatim>\<open>while True\<close> loop from the read of the symbol under the head to the new
  snapshot (lines 72 to 96): \<open>Inr None\<close> when no transition is defined, otherwise the
  locals after the step and the snapshot to append.
\<close>

definition step :: "machine \<Rightarrow> locals \<Rightarrow> error + (locals \<times> instant_description) option" where
  "step m l =
     (case list_getitem (l_tape l) (l_head_index l) of
        Inl e \<Rightarrow> Inl e
      | Inr symbol \<Rightarrow>
          (case m_transition_map m (l_current_state l, symbol) of
             None \<Rightarrow> Inr None
           | Some t \<Rightarrow>
               (case list_setitem (l_tape l) (l_head_index l) (write_symbol t) of
                  Inl e \<Rightarrow> Inl e
                | Inr tp \<Rightarrow>
                    (case move_head m (l_head_index l) (move t) tp of
                       (h, tp') \<Rightarrow>
                         (case snapshot (next_state t) tp' h of
                            Inl e \<Rightarrow> Inl e
                          | Inr d \<Rightarrow>
                              Inr (Some (\<lparr>l_tape = tp', l_head_index = h,
                                           l_current_state = next_state t\<rparr>, d)))))))"

text \<open>
  What a run returns: the pair \<open>(history, accepted)\<close> of the source, together with the value
  of the counter \<^verbatim>\<open>steps\<close> at the return and the \<^verbatim>\<open>return\<close> statement taken: line 68
  (\<open>InitialAccept\<close>), line 80 (\<open>Omission\<close>), line 100 (\<open>Accept\<close>) or line 105 (\<open>Ceiling\<close>).
\<close>

datatype exit = InitialAccept | Omission | Accept | Ceiling

record outcome =
  history :: "instant_description list"
  accepted :: bool
  steps :: int
  exit :: exit

text \<open>
  The \<^verbatim>\<open>while True\<close> loop. It has no bound when no step ceiling is configured, so it is a
  partial function: \<open>None\<close> is a run that never returns.
\<close>

partial_function (option) run_loop ::
  "machine \<Rightarrow> locals \<Rightarrow> instant_description list \<Rightarrow> int \<Rightarrow> (error + outcome) option" where
  "run_loop m l hist n =
     (case step m l of
        Inl e \<Rightarrow> Some (Inl e)
      | Inr None \<Rightarrow> Some (Inr \<lparr>history = hist, accepted = False, steps = n, exit = Omission\<rparr>)
      | Inr (Some (l', d)) \<Rightarrow>
          (if l_current_state l' \<in> m_accept_states m then
             Some (Inr \<lparr>history = hist @ [d], accepted = True, steps = n + 1, exit = Accept\<rparr>)
           else if (case m_max_steps m of None \<Rightarrow> False | Some N \<Rightarrow> n + 1 \<ge> N) then
             Some (Inr \<lparr>history = hist @ [d],
                        accepted = (l_current_state l' \<in> m_accept_states m),
                        steps = n + 1, exit = Ceiling\<rparr>)
           else run_loop m l' (hist @ [d]) (n + 1)))"

text \<open>\<^verbatim>\<open>Machine.run\<close>.\<close>

definition run :: "machine \<Rightarrow> string \<Rightarrow> (error + outcome) option" where
  "run m input_string =
     (case validate_input_string m input_string of
        Inl e \<Rightarrow> Some (Inl e)
      | Inr _ \<Rightarrow>
          (let tp = initialize_tape m input_string;
               q = initial_state (m_config m)
           in case snapshot q tp 0 of
                Inl e \<Rightarrow> Some (Inl e)
              | Inr d \<Rightarrow>
                  (if q \<in> m_accept_states m then
                     Some (Inr \<lparr>history = [d], accepted = True, steps = 0, exit = InitialAccept\<rparr>)
                   else run_loop m \<lparr>l_tape = tp, l_head_index = 0, l_current_state = q\<rparr> [d] 0)))"

text \<open>
  \<^verbatim>\<open>Machine(config, max_steps=ms).run(input_string)\<close>, as \<^verbatim>\<open>cli.py\<close> builds an engine and
  runs it.
\<close>

definition run_config :: "machine_config \<Rightarrow> int option \<Rightarrow> string \<Rightarrow> (error + outcome) option" where
  "run_config c ms input_string =
     (case Machine_init c ms of
        Inl e \<Rightarrow> Some (Inl e)
      | Inr m \<Rightarrow> run m input_string)"

declare run_loop.simps [code]

subsection \<open>machine.py: run on an explicit store\<close>

text \<open>
  The functions above pass values. To say what a run does to the objects that exist when
  it is called, \<^verbatim>\<open>run\<close> and its helpers are read once more with Python's objects in an
  explicit store: a list of cells, the address of an object being its index. A cell holds
  a list of strings (the tape is one), a list of snapshots (\<^verbatim>\<open>history\<close>) or an engine
  together with everything its attributes refer to: the definition and its lists, the
  rules, the two dictionaries and the set of accept states. The source reads these through
  attribute access, \<^verbatim>\<open>in\<close>, \<^verbatim>\<open>.get\<close> and \<^verbatim>\<open>set(...)\<close> only, so they are kept as one
  value. A new object goes to the end of the store; an assignment through a reference
  overwrites the cell at its address. A snapshot is created and never changed, so it is a
  value.
\<close>

datatype cell = Engine machine | StrList "string list" | Trace "instant_description list"

type_synonym store = "cell list"

text \<open>
  What is raised: an exception of the source, or \<open>TypeError\<close> for an operation on a cell of
  another kind or on an address that is not allocated. A raise leaves the store as it is
  at that point, so an error carries the store.
\<close>

datatype raised = Raised error | TypeError

type_synonym 'a result = "(raised \<times> store) + 'a"

definition the_engine :: "store \<Rightarrow> nat \<Rightarrow> machine result" where
  "the_engine s a =
     (if a < length s then (case s ! a of Engine m \<Rightarrow> Inr m | _ \<Rightarrow> Inl (TypeError, s))
      else Inl (TypeError, s))"

definition the_list :: "store \<Rightarrow> nat \<Rightarrow> string list result" where
  "the_list s a =
     (if a < length s then (case s ! a of StrList xs \<Rightarrow> Inr xs | _ \<Rightarrow> Inl (TypeError, s))
      else Inl (TypeError, s))"

definition the_trace :: "store \<Rightarrow> nat \<Rightarrow> instant_description list result" where
  "the_trace s a =
     (if a < length s then (case s ! a of Trace ds \<Rightarrow> Inr ds | _ \<Rightarrow> Inl (TypeError, s))
      else Inl (TypeError, s))"

definition alloc :: "store \<Rightarrow> cell \<Rightarrow> nat \<times> store" where
  "alloc s c = (length s, s @ [c])"

text \<open>
  \<^verbatim>\<open>sorted(set(invalid_symbols))\<close> iterates over a set, and Python fixes no order for that
  (for strings it depends on the hash seed of the process). The order is a parameter
  \<open>it\<close> of the run: any function that lists each element of the set once.
\<close>

definition enumerates :: "(char list \<Rightarrow> char list) \<Rightarrow> bool" where
  "enumerates it \<longleftrightarrow> (\<forall>xs. distinct (it xs) \<and> set (it xs) = set xs)"

text \<open>\<^verbatim>\<open>Machine._validate_input_string\<close>, reading the engine at \<open>self\<close>.\<close>

definition validate_input_string_store ::
  "(char list \<Rightarrow> char list) \<Rightarrow> store \<Rightarrow> nat \<Rightarrow> string \<Rightarrow> unit result" where
  "validate_input_string_store it s self input_string =
     (case the_engine s self of
        Inl x \<Rightarrow> Inl x
      | Inr m \<Rightarrow>
          if invalid_symbols m input_string \<noteq> [] then
            Inl (Raised (InvalidSymbol
              (''Input string contains symbols outside the input alphabet: '' @
               join '', '' (map (\<lambda>ch. [ch]) (sort (it (invalid_symbols m input_string)))))), s)
          else Inr ())"

text \<open>\<^verbatim>\<open>Machine._initialize_tape\<close>: both branches build a new list and return its address.\<close>

definition initialize_tape_store :: "store \<Rightarrow> nat \<Rightarrow> string \<Rightarrow> (nat \<times> store) result" where
  "initialize_tape_store s self input_string =
     (if input_string = [] then
        (case the_engine s self of
           Inl x \<Rightarrow> Inl x
         | Inr m \<Rightarrow> Inr (alloc s (StrList [m_blank_symbol m])))
      else Inr (alloc s (StrList (map (\<lambda>ch. [ch]) input_string))))"

text \<open>
  \<^verbatim>\<open>Machine._move_head\<close>: \<^verbatim>\<open>tape.insert(0, ...)\<close> and \<^verbatim>\<open>tape.append(...)\<close> change the list at
  the address \<open>ta\<close> of the tape.
\<close>

definition move_head_store ::
  "store \<Rightarrow> nat \<Rightarrow> int \<Rightarrow> string \<Rightarrow> nat \<Rightarrow> (int \<times> store) result" where
  "move_head_store s self head_index mv ta =
     (if mv = ''L'' then
        (if head_index = 0 then
           (case the_engine s self of
              Inl x \<Rightarrow> Inl x
            | Inr m \<Rightarrow>
                (case the_list s ta of
                   Inl x \<Rightarrow> Inl x
                 | Inr tp \<Rightarrow> Inr (0, s[ta := StrList (m_blank_symbol m # tp)])))
         else Inr (head_index - 1, s))
      else if mv = ''R'' then
        (case the_list s ta of
           Inl x \<Rightarrow> Inl x
         | Inr tp \<Rightarrow>
             if head_index + 1 = int (length tp) then
               (case the_engine s self of
                  Inl x \<Rightarrow> Inl x
                | Inr m \<Rightarrow> Inr (head_index + 1, s[ta := StrList (tp @ [m_blank_symbol m])]))
             else Inr (head_index + 1, s))
      else Inr (head_index, s))"

text \<open>\<^verbatim>\<open>Machine._snapshot\<close>, reading the tape at \<open>ta\<close>.\<close>

definition snapshot_store ::
  "store \<Rightarrow> string \<Rightarrow> nat \<Rightarrow> int \<Rightarrow> instant_description result" where
  "snapshot_store s q ta head_index =
     (case the_list s ta of
        Inl x \<Rightarrow> Inl x
      | Inr tp \<Rightarrow>
          (case snapshot q tp head_index of
             Inl e \<Rightarrow> Inl (Raised e, s)
           | Inr d \<Rightarrow> Inr d))"

text \<open>
  The body of the loop from line 72 to the snapshot of line 96, as \<open>step\<close> above:
  \<^verbatim>\<open>tape[head_index] = ...\<close> overwrites the list at \<open>ta\<close>.
\<close>

definition step_store ::
  "store \<Rightarrow> nat \<Rightarrow> nat \<Rightarrow> int \<Rightarrow> string
     \<Rightarrow> (store \<times> int \<times> string \<times> instant_description) option result" where
  "step_store s self ta head_index q =
     (case the_list s ta of
        Inl x \<Rightarrow> Inl x
      | Inr tp \<Rightarrow>
     (case list_getitem tp head_index of
        Inl e \<Rightarrow> Inl (Raised e, s)
      | Inr symbol \<Rightarrow>
     (case the_engine s self of
        Inl x \<Rightarrow> Inl x
      | Inr m \<Rightarrow>
     (case m_transition_map m (q, symbol) of
        None \<Rightarrow> Inr None
      | Some t \<Rightarrow>
     (case list_setitem tp head_index (write_symbol t) of
        Inl e \<Rightarrow> Inl (Raised e, s)
      | Inr tp' \<Rightarrow>
     (case move_head_store (s[ta := StrList tp']) self head_index (move t) ta of
        Inl x \<Rightarrow> Inl x
      | Inr (h, s') \<Rightarrow>
     (case snapshot_store s' (next_state t) ta h of
        Inl x \<Rightarrow> Inl x
      | Inr d \<Rightarrow> Inr (Some (s', h, next_state t, d)))))))))"

text \<open>\<^verbatim>\<open>history.append(...)\<close>, on the list of snapshots at \<open>ha\<close>.\<close>

definition trace_append :: "store \<Rightarrow> nat \<Rightarrow> instant_description \<Rightarrow> store result" where
  "trace_append s ha d =
     (case the_trace s ha of
        Inl x \<Rightarrow> Inl x
      | Inr ds \<Rightarrow> Inr (s[ha := Trace (ds @ [d])]))"

text \<open>
  The \<^verbatim>\<open>while True\<close> loop. The tests of lines 99 and 103 read the engine in the store as it
  is then. The run returns the address of \<^verbatim>\<open>history\<close> and the verdict.
\<close>

partial_function (option) run_loop_store ::
  "store \<Rightarrow> nat \<Rightarrow> nat \<Rightarrow> int \<Rightarrow> string \<Rightarrow> nat \<Rightarrow> int \<Rightarrow> ((nat \<times> bool) \<times> store) result option" where
  "run_loop_store s self ta head_index q ha n =
     (case step_store s self ta head_index q of
        Inl x \<Rightarrow> Some (Inl x)
      | Inr None \<Rightarrow> Some (Inr ((ha, False), s))
      | Inr (Some (s', h, q', d)) \<Rightarrow>
          (case trace_append s' ha d of
             Inl x \<Rightarrow> Some (Inl x)
           | Inr s'' \<Rightarrow>
               (case the_engine s'' self of
                  Inl x \<Rightarrow> Some (Inl x)
                | Inr m \<Rightarrow>
                    if q' \<in> m_accept_states m then Some (Inr ((ha, True), s''))
                    else if (case m_max_steps m of None \<Rightarrow> False | Some N \<Rightarrow> n + 1 \<ge> N) then
                      Some (Inr ((ha, q' \<in> m_accept_states m), s''))
                    else run_loop_store s'' self ta h q' ha (n + 1))))"

text \<open>\<^verbatim>\<open>Machine.run\<close>, called on the engine at the address \<open>self\<close>.\<close>

definition run_store ::
  "(char list \<Rightarrow> char list) \<Rightarrow> store \<Rightarrow> nat \<Rightarrow> string \<Rightarrow> ((nat \<times> bool) \<times> store) result option" where
  "run_store it s self input_string =
     (case validate_input_string_store it s self input_string of
        Inl x \<Rightarrow> Some (Inl x)
      | Inr _ \<Rightarrow>
     (case initialize_tape_store s self input_string of
        Inl x \<Rightarrow> Some (Inl x)
      | Inr (ta, s') \<Rightarrow>
     (case the_engine s' self of
        Inl x \<Rightarrow> Some (Inl x)
      | Inr m \<Rightarrow>
     (case snapshot_store s' (initial_state (m_config m)) ta 0 of
        Inl x \<Rightarrow> Some (Inl x)
      | Inr d \<Rightarrow>
     (case alloc s' (Trace [d]) of
        (ha, s'') \<Rightarrow>
          if initial_state (m_config m) \<in> m_accept_states m then Some (Inr ((ha, True), s''))
          else run_loop_store s'' self ta 0 (initial_state (m_config m)) ha 0)))))"

text \<open>
  The store a run leaves, and what its caller sees: the exception, or the snapshots in the
  list that is returned and the verdict.
\<close>

definition final_store :: "((nat \<times> bool) \<times> store) result \<Rightarrow> store" where
  "final_store r = (case r of Inl (x, s) \<Rightarrow> s | Inr (v, s) \<Rightarrow> s)"

definition observe ::
  "((nat \<times> bool) \<times> store) result \<Rightarrow> raised + instant_description list \<times> bool" where
  "observe r =
     (case r of
        Inl (x, s) \<Rightarrow> Inl x
      | Inr ((ha, verdict), s) \<Rightarrow>
          (case the_trace s ha of Inl (x, _) \<Rightarrow> Inl x | Inr ds \<Rightarrow> Inr (ds, verdict)))"

declare run_loop_store.simps [code]

text \<open>The same of a run on values: the error, or the trace and the verdict.\<close>

definition returned :: "error + outcome \<Rightarrow> raised + instant_description list \<times> bool" where
  "returned r = (case r of Inl e \<Rightarrow> Inl (Raised e) | Inr out \<Rightarrow> Inr (history out, accepted out))"

text \<open>
  At the top of the loop the store holds the engine \<open>m\<close> at \<open>self\<close>, the tape \<open>tp\<close> at \<open>ta\<close>
  and the history \<open>hist\<close> at \<open>ha\<close>.
\<close>

definition loop_store ::
  "store \<Rightarrow> nat \<Rightarrow> nat \<Rightarrow> nat \<Rightarrow> machine \<Rightarrow> string list \<Rightarrow> instant_description list \<Rightarrow> bool" where
  "loop_store s self ta ha m tp hist \<longleftrightarrow>
     self < length s \<and> ta < length s \<and> ha < length s \<and> ta \<noteq> ha \<and>
     s ! self = Engine m \<and> s ! ta = StrList tp \<and> s ! ha = Trace hist"

text \<open>\<open>frame A s s'\<close>: the stores have the same cells but for the addresses in \<open>A\<close>.\<close>

definition frame :: "nat set \<Rightarrow> store \<Rightarrow> store \<Rightarrow> bool" where
  "frame A s s' \<longleftrightarrow> length s' = length s \<and> (\<forall>a<length s. a \<notin> A \<longrightarrow> s' ! a = s ! a)"

subsection \<open>The configurations a run passes through\<close>

text \<open>
  \<open>loop_head m input_string l hist n\<close>: during \<^verbatim>\<open>run(input_string)\<close> control stands at the top
  of the \<^verbatim>\<open>while True\<close> loop (line 72) with the locals \<open>l\<close>, the list \<^verbatim>\<open>history\<close> equal to
  \<open>hist\<close> and the counter \<^verbatim>\<open>steps\<close> equal to \<open>n\<close>. The loop is entered after the input
  check, the first snapshot and the failed test of line 67; it is entered again after a
  step when neither the test of line 99 nor the test of line 103 returns.
\<close>

inductive loop_head ::
  "machine \<Rightarrow> string \<Rightarrow> locals \<Rightarrow> instant_description list \<Rightarrow> int \<Rightarrow> bool"
  for m :: machine and input_string :: string where
  enter: "validate_input_string m input_string = Inr () \<Longrightarrow>
      snapshot (initial_state (m_config m)) (initialize_tape m input_string) 0 = Inr d \<Longrightarrow>
      initial_state (m_config m) \<notin> m_accept_states m \<Longrightarrow>
      loop_head m input_string
        \<lparr>l_tape = initialize_tape m input_string, l_head_index = 0,
         l_current_state = initial_state (m_config m)\<rparr> [d] 0"
| again: "loop_head m input_string l hist n \<Longrightarrow>
      step m l = Inr (Some (l', d)) \<Longrightarrow>
      l_current_state l' \<notin> m_accept_states m \<Longrightarrow>
      \<not> (case m_max_steps m of None \<Rightarrow> False | Some N \<Rightarrow> n + 1 \<ge> N) \<Longrightarrow>
      loop_head m input_string l' (hist @ [d]) (n + 1)"

text \<open>The head index is an index of the tape.\<close>

definition head_in_range :: "locals \<Rightarrow> bool" where
  "head_in_range l \<longleftrightarrow> 0 \<le> l_head_index l \<and> l_head_index l < int (length (l_tape l))"

text \<open>
  What the data model asks of a snapshot: a state name that is not empty, a head index that
  is not negative and, for an engine whose blank symbol is not the empty string, a head
  index below the length of the tape text.
\<close>

definition well_formed :: "machine \<Rightarrow> instant_description \<Rightarrow> bool" where
  "well_formed m d \<longleftrightarrow>
     state d \<noteq> [] \<and> 0 \<le> head_position d \<and>
     (m_blank_symbol m \<noteq> [] \<longrightarrow> head_position d < int (length (tape d)))"

text \<open>
  The two conditions on the rules of a definition that the construction of an engine
  looks for: two rules with one signature, and a rule whose source or destination is not a
  declared state.
\<close>

definition shares_signature :: "machine_config \<Rightarrow> bool" where
  "shares_signature c \<longleftrightarrow> \<not> distinct (map signature (transitions c))"

definition undeclared_state :: "machine_config \<Rightarrow> bool" where
  "undeclared_state c \<longleftrightarrow>
     list_ex (\<lambda>t. current_state t \<notin> set (states c) \<or> next_state t \<notin> set (states c))
       (transitions c)"

subsection \<open>Example machines\<close>

text \<open>
  The machine of the first scenario: states \<open>q0\<close> and \<open>qa\<close>, input alphabet \<open>0\<close>, \<open>1\<close>, blank
  \<open>B\<close>, accept state \<open>qa\<close>, and the rules \<open>(q0, 0) \<rightarrow> (0, R, q0)\<close> and \<open>(q0, 1) \<rightarrow> (1, R, qa)\<close>.
\<close>

definition ex_rule_0 :: transition where
  "ex_rule_0 = \<lparr>current_state = ''q0'', read_symbol = ''0'', write_symbol = ''0'', move = ''R'',
     next_state = ''q0''\<rparr>"

definition ex_rule_1 :: transition where
  "ex_rule_1 = \<lparr>current_state = ''q0'', read_symbol = ''1'', write_symbol = ''1'', move = ''R'',
     next_state = ''qa''\<rparr>"

definition ex_config :: machine_config where
  "ex_config = \<lparr>states = [''q0'', ''qa''], input_alphabet = [''0'', ''1''],
     tape_alphabet = [''0'', ''1'', ''B''], initial_state = ''q0'', accept_states = [''qa''],
     transitions = [ex_rule_0, ex_rule_1], inputs = None, blank_symbol = ''B''\<rparr>"

text \<open>The engine built from it with the step ceiling \<open>ms\<close>.\<close>

definition ex_machine :: "int option \<Rightarrow> machine" where
  "ex_machine ms = \<lparr>m_config = ex_config,
     m_states = [''q0'' \<mapsto> State ''q0'', ''qa'' \<mapsto> State ''qa''],
     m_accept_states = set [''qa''], m_blank_symbol = ''B'', m_max_steps = ms,
     m_transition_map = [(''q0'', ''0'') \<mapsto> ex_rule_0, (''q0'', ''1'') \<mapsto> ex_rule_1]\<rparr>"

text \<open>Its locals and snapshots in state \<open>q0\<close>.\<close>

definition ex_locals :: "string list \<Rightarrow> int \<Rightarrow> locals" where
  "ex_locals tp h = \<lparr>l_tape = tp, l_head_index = h, l_current_state = ''q0''\<rparr>"

definition ex_snapshot :: "string \<Rightarrow> int \<Rightarrow> instant_description" where
  "ex_snapshot tp h = \<lparr>state = ''q0'', tape = tp, head_position = h\<rparr>"

text \<open>The same machine with its initial state as the accept state, and its engine.\<close>

definition ex_accepting_config :: machine_config where
  "ex_accepting_config = ex_config\<lparr>accept_states := [''q0'']\<rparr>"

definition ex_accepting_machine :: machine where
  "ex_accepting_machine =
     (ex_machine None)\<lparr>m_config := ex_accepting_config, m_accept_states := set [''q0'']\<rparr>"

text \<open>
  Two rules with the signature \<open>(q0, 0)\<close>, the second one with the destination \<open>qx\<close> that is
  not declared.
\<close>

definition ex_rule_dangling :: transition where
  "ex_rule_dangling = \<lparr>current_state = ''q0'', read_symbol = ''0'', write_symbol = ''0'',
     move = ''R'', next_state = ''qx''\<rparr>"

definition ex_duplicate_config :: machine_config where
  "ex_duplicate_config = ex_config\<lparr>transitions := [ex_rule_0, ex_rule_dangling]\<rparr>"

text \<open>The first machine with a third declared state whose name is the empty string.\<close>

definition ex_unnamed_config :: machine_config where
  "ex_unnamed_config = ex_config\<lparr>states := [''q0'', ''qa'', '''']\<rparr>"

text \<open>A machine whose blank symbol is the empty string.\<close>

definition ex_blank_config :: machine_config where
  "ex_blank_config = \<lparr>states = [''q0''], input_alphabet = [''0''], tape_alphabet = [''0'', ''''],
     initial_state = ''q0'', accept_states = [], transitions = [ex_rule_0], inputs = None,
     blank_symbol = ''''\<rparr>"

text \<open>A store with a list of strings and the engine of the first machine.\<close>

definition ex_store :: store where
  "ex_store = [StrList [''0'', ''1''], Engine (ex_machine None)]"

section \<open>Properties\<close>

subsection \<open>Lists, snapshots and head moves\<close>

lemma list_getitem_in_range:
  "0 \<le> i \<Longrightarrow> i < int (length xs) \<Longrightarrow> list_getitem xs i = Inr (xs ! nat i)"
  by (simp add: list_getitem_def)

lemma list_setitem_in_range:
  "0 \<le> i \<Longrightarrow> i < int (length xs) \<Longrightarrow> list_setitem xs i v = Inr (xs[nat i := v])"
  by (simp add: list_setitem_def)

lemma list_getitem_Inl: "list_getitem xs i = Inl e \<Longrightarrow> e = IndexError"
  by (simp add: list_getitem_def Let_def split: if_splits)

lemma list_setitem_Inl: "list_setitem xs i v = Inl e \<Longrightarrow> e = IndexError"
  by (simp add: list_setitem_def Let_def split: if_splits)

lemma concat_singletons: "concat (map (\<lambda>ch. [ch]) xs) = xs"
  by (induction xs) auto

lemma length_concat_cells:
  assumes "[] \<notin> set xs"
  shows "length xs \<le> length (concat xs)"
  using assms
proof (induction xs)
  case Nil
  then show ?case by simp
next
  case (Cons x xs)
  then have "x \<noteq> []" by auto
  then have "1 \<le> length x" by (cases x) auto
  with Cons show ?case by auto
qed

lemma snapshot_Inr:
  "snapshot q tp h = Inr d \<longleftrightarrow>
     q \<noteq> [] \<and> 0 \<le> h \<and> d = \<lparr>state = q, tape = concat tp, head_position = h\<rparr>"
  by (auto simp: snapshot_def InstantDescription_post_init_def)

lemma snapshot_Inl_not_InvalidSymbol: "snapshot q tp h = Inl e \<Longrightarrow> \<not> is_InvalidSymbol e"
  by (auto simp: snapshot_def InstantDescription_post_init_def split: if_splits)

lemma move_head_in_range:
  assumes "move_head m h mv tp = (h', tp')" "0 \<le> h" "h < int (length tp)"
  shows "0 \<le> h' \<and> h' < int (length tp')"
  using assms by (auto simp: move_head_def split: if_splits)

lemma move_head_cells:
  assumes "move_head m h mv tp = (h', tp')"
  shows "set tp' \<subseteq> insert (m_blank_symbol m) (set tp)"
  using assms by (auto simp: move_head_def split: if_splits)

subsection \<open>One step of the loop\<close>

lemma step_Some_D:
  assumes "step m l = Inr (Some (l', d))"
  obtains symbol t tp where
    "list_getitem (l_tape l) (l_head_index l) = Inr symbol"
    "m_transition_map m (l_current_state l, symbol) = Some t"
    "list_setitem (l_tape l) (l_head_index l) (write_symbol t) = Inr tp"
    "move_head m (l_head_index l) (move t) tp = (l_head_index l', l_tape l')"
    "l_current_state l' = next_state t"
    "snapshot (next_state t) (l_tape l') (l_head_index l') = Inr d"
  using assms unfolding step_def
  by (auto split: sum.splits option.splits prod.splits)

lemma step_snapshot:
  assumes "step m l = Inr (Some (l', d))"
  shows "d = \<lparr>state = l_current_state l', tape = concat (l_tape l'), head_position = l_head_index l'\<rparr>"
    and "state d \<noteq> []" and "0 \<le> head_position d"
  using assms by (auto elim!: step_Some_D simp: snapshot_Inr)

lemma step_Inl_not_InvalidSymbol: "step m l = Inl e \<Longrightarrow> \<not> is_InvalidSymbol e"
  unfolding step_def
  by (auto split: sum.splits option.splits prod.splits
      dest: snapshot_Inl_not_InvalidSymbol list_getitem_Inl list_setitem_Inl)

lemma step_in_range:
  assumes "head_in_range l"
    and "\<forall>k t. m_transition_map m k = Some t \<longrightarrow> next_state t \<noteq> []"
  shows "step m l = Inr None \<or> (\<exists>l' d. step m l = Inr (Some (l', d)) \<and> head_in_range l')"
proof -
  let ?h = "l_head_index l" and ?tp = "l_tape l"
  from assms(1) have r: "0 \<le> ?h" "?h < int (length ?tp)"
    by (simp_all add: head_in_range_def)
  show ?thesis
  proof (cases "m_transition_map m (l_current_state l, ?tp ! nat ?h)")
    case None
    with r show ?thesis
      by (simp add: step_def list_getitem_in_range)
  next
    case (Some t)
    obtain h' tp' where mv: "move_head m ?h (move t) (?tp[nat ?h := write_symbol t]) = (h', tp')"
      by (cases "move_head m ?h (move t) (?tp[nat ?h := write_symbol t])")
    from move_head_in_range[OF mv] r have r': "0 \<le> h'" "h' < int (length tp')"
      by simp_all
    from assms(2) Some r' have
      "snapshot (next_state t) tp' h' =
         Inr \<lparr>state = next_state t, tape = concat tp', head_position = h'\<rparr>"
      by (simp add: snapshot_Inr)
    with Some r mv r' show ?thesis
      by (simp add: step_def list_getitem_in_range list_setitem_in_range head_in_range_def)
  qed
qed

lemma step_preserves_range:
  assumes "step m l = Inr (Some (l', d))" and "head_in_range l"
  shows "head_in_range l'"
proof -
  from assms(1) obtain t :: transition and tp where
    s: "list_setitem (l_tape l) (l_head_index l) (write_symbol t) = Inr tp"
    and mv: "move_head m (l_head_index l) (move t) tp = (l_head_index l', l_tape l')"
    by (auto elim!: step_Some_D)
  from s assms(2) have "tp = (l_tape l)[nat (l_head_index l) := write_symbol t]"
    by (simp add: head_in_range_def list_setitem_in_range)
  with move_head_in_range[OF mv] assms(2) show ?thesis
    by (simp add: head_in_range_def)
qed

lemma step_preserves_cells:
  assumes "step m l = Inr (Some (l', d))" and "head_in_range l"
    and "\<forall>k t. m_transition_map m k = Some t \<longrightarrow> write_symbol t \<noteq> []"
    and "m_blank_symbol m \<noteq> []" and "[] \<notin> set (l_tape l)"
  shows "[] \<notin> set (l_tape l')"
proof -
  from assms(1) obtain symbol and t :: transition and tp where
    t: "m_transition_map m (l_current_state l, symbol) = Some t"
    and s: "list_setitem (l_tape l) (l_head_index l) (write_symbol t) = Inr tp"
    and mv: "move_head m (l_head_index l) (move t) tp = (l_head_index l', l_tape l')"
    by (rule step_Some_D)
  from s assms(2) have "tp = (l_tape l)[nat (l_head_index l) := write_symbol t]"
    by (simp add: head_in_range_def list_setitem_in_range)
  then have sub: "set tp \<subseteq> insert (write_symbol t) (set (l_tape l))"
    by (simp add: set_update_subset_insert)
  have w: "write_symbol t \<noteq> []"
    using assms(3) t by blast
  show ?thesis
  proof
    assume "[] \<in> set (l_tape l')"
    with move_head_cells[OF mv] have "[] \<in> insert (m_blank_symbol m) (set tp)" by (rule subsetD)
    with assms(4) have "[] \<in> set tp" by auto
    with sub have "[] \<in> insert (write_symbol t) (set (l_tape l))" by (rule subsetD)
    with w assms(5) show False by auto
  qed
qed

lemma step_well_formed:
  assumes "step m l = Inr (Some (l', d))" and "head_in_range l"
    and "\<forall>k t. m_transition_map m k = Some t \<longrightarrow> write_symbol t \<noteq> []"
    and "m_blank_symbol m \<noteq> [] \<longrightarrow> [] \<notin> set (l_tape l)"
  shows "well_formed m d"
proof -
  note d = step_snapshot[OF assms(1)]
  have r: "head_in_range l'"
    using step_preserves_range[OF assms(1,2)] .
  have "head_position d < int (length (tape d))" if b: "m_blank_symbol m \<noteq> []"
  proof -
    from b assms(4) have "[] \<notin> set (l_tape l)" by simp
    from step_preserves_cells[OF assms(1,2,3) b this]
    have "length (l_tape l') \<le> length (concat (l_tape l'))"
      by (rule length_concat_cells)
    with r d(1) show ?thesis by (simp add: head_in_range_def)
  qed
  with d(2,3) show ?thesis by (simp add: well_formed_def)
qed

subsection \<open>The loop\<close>

lemmas run_loop_raw = run_loop.raw_induct[rotated 1, consumes 1, case_names body]

text \<open>Partial correctness of the loop: one case for each way an iteration ends.\<close>

lemma run_loop_induct [consumes 1, case_names error omission accept ceiling continue]:
  assumes run: "run_loop m l hist n = Some r"
    and error: "\<And>l hist n e. step m l = Inl e \<Longrightarrow> P l hist n (Inl e)"
    and omission: "\<And>l hist n. step m l = Inr None \<Longrightarrow>
        P l hist n (Inr \<lparr>history = hist, accepted = False, steps = n, exit = Omission\<rparr>)"
    and accept: "\<And>l hist n l' d. step m l = Inr (Some (l', d)) \<Longrightarrow>
        l_current_state l' \<in> m_accept_states m \<Longrightarrow>
        P l hist n (Inr \<lparr>history = hist @ [d], accepted = True, steps = n + 1, exit = Accept\<rparr>)"
    and ceiling: "\<And>l hist n l' d N. step m l = Inr (Some (l', d)) \<Longrightarrow>
        l_current_state l' \<notin> m_accept_states m \<Longrightarrow> m_max_steps m = Some N \<Longrightarrow> N \<le> n + 1 \<Longrightarrow>
        P l hist n (Inr \<lparr>history = hist @ [d],
                        accepted = (l_current_state l' \<in> m_accept_states m),
                        steps = n + 1, exit = Ceiling\<rparr>)"
    and continue: "\<And>l hist n l' d r. step m l = Inr (Some (l', d)) \<Longrightarrow>
        l_current_state l' \<notin> m_accept_states m \<Longrightarrow>
        (\<And>N. m_max_steps m = Some N \<Longrightarrow> n + 1 < N) \<Longrightarrow>
        P l' (hist @ [d]) (n + 1) r \<Longrightarrow> P l hist n r"
  shows "P l hist n r"
proof -
  have "m' = m \<longrightarrow> P l hist n r" if "run_loop m' l hist n = Some r" for m'
    using that
  proof (induction m' l hist n r rule: run_loop_raw)
    case (body f m' l hist n r)
    show ?case
    proof
      assume m': "m' = m"
      show "P l hist n r"
      proof (cases "step m l")
        case (Inl e)
        with body(2) m' have "r = Inl e" by simp
        with Inl show ?thesis by (simp add: error)
      next
        case (Inr s)
        show ?thesis
        proof (cases s)
          case None
          with Inr body(2) m' show ?thesis by (auto simp: omission)
        next
          case (Some p)
          obtain l' d where p: "p = (l', d)" by (cases p)
          have st: "step m l = Inr (Some (l', d))" using Inr Some p by simp
          show ?thesis
          proof (cases "l_current_state l' \<in> m_accept_states m")
            case True
            with body(2) st m' show ?thesis by (auto simp: accept)
          next
            case False
            show ?thesis
            proof (cases "case m_max_steps m of None \<Rightarrow> False | Some N \<Rightarrow> N \<le> n + 1")
              case True
              then obtain N where N: "m_max_steps m = Some N" "N \<le> n + 1"
                by (auto split: option.splits)
              have "r = Inr \<lparr>history = hist @ [d],
                        accepted = (l_current_state l' \<in> m_accept_states m),
                        steps = n + 1, exit = Ceiling\<rparr>"
                using body(2) st m' False True by simp
              with ceiling[OF st False N] show ?thesis by simp
            next
              case nc: False
              then have lt: "\<And>N. m_max_steps m = Some N \<Longrightarrow> n + 1 < N"
                by (auto split: option.splits)
              have "f m l' (hist @ [d]) (n + 1) = Some r"
                using body(2) st m' False nc by simp
              from body(1)[OF this] m' have "P l' (hist @ [d]) (n + 1) r" by simp
              from continue[OF st False lt this] show ?thesis by simp
            qed
          qed
        qed
      qed
    qed
  qed
  with run show ?thesis by blast
qed

lemma run_loop_history:
  assumes "run_loop m l hist n = Some (Inr out)"
  shows "\<exists>rest. history out = hist @ rest \<and> int (length rest) = steps out - n"
proof -
  have "\<forall>out. r = Inr out \<longrightarrow> (\<exists>rest. history out = hist @ rest \<and> int (length rest) = steps out - n)"
    if "run_loop m l hist n = Some r" for r
    using that by (induction l hist n r rule: run_loop_induct) auto
  with assms show ?thesis by blast
qed

lemma run_loop_exit:
  assumes "run_loop m l hist n = Some (Inr out)"
  shows "exit out \<noteq> InitialAccept"
    and "exit out = Omission \<Longrightarrow> \<not> accepted out"
    and "exit out = Accept \<Longrightarrow> accepted out"
    and "exit out = Ceiling \<Longrightarrow> \<not> accepted out"
proof -
  have "\<forall>out. r = Inr out \<longrightarrow> exit out \<noteq> InitialAccept \<and> (accepted out \<longleftrightarrow> exit out = Accept)"
    if "run_loop m l hist n = Some r" for r
    using that by (induction l hist n r rule: run_loop_induct) auto
  with assms show "exit out \<noteq> InitialAccept"
    and "exit out = Omission \<Longrightarrow> \<not> accepted out"
    and "exit out = Accept \<Longrightarrow> accepted out"
    and "exit out = Ceiling \<Longrightarrow> \<not> accepted out"
    by auto
qed

lemma run_loop_not_InvalidSymbol:
  assumes "run_loop m l hist n = Some (Inl e)"
  shows "\<not> is_InvalidSymbol e"
proof -
  have "\<forall>e. r = Inl e \<longrightarrow> \<not> is_InvalidSymbol e" if "run_loop m l hist n = Some r" for r
    using that by (induction l hist n r rule: run_loop_induct) (auto dest: step_Inl_not_InvalidSymbol)
  with assms show ?thesis by blast
qed

lemma run_loop_well_formed:
  assumes "run_loop m l hist n = Some (Inr out)"
    and "\<forall>k t. m_transition_map m k = Some t \<longrightarrow> write_symbol t \<noteq> []"
    and "head_in_range l" and "m_blank_symbol m \<noteq> [] \<longrightarrow> [] \<notin> set (l_tape l)"
    and "\<forall>d\<in>set hist. well_formed m d"
  shows "\<forall>d\<in>set (history out). well_formed m d"
proof -
  have "\<forall>out. r = Inr out \<longrightarrow> head_in_range l \<longrightarrow>
          (m_blank_symbol m \<noteq> [] \<longrightarrow> [] \<notin> set (l_tape l)) \<longrightarrow>
          (\<forall>d\<in>set hist. well_formed m d) \<longrightarrow> (\<forall>d\<in>set (history out). well_formed m d)"
    if "run_loop m l hist n = Some r" for r
    using that
  proof (induction l hist n r rule: run_loop_induct)
    case (continue l hist n l' d r)
    show ?case
    proof (intro allI impI)
      fix out
      assume a: "r = Inr out" "head_in_range l"
        "m_blank_symbol m \<noteq> [] \<longrightarrow> [] \<notin> set (l_tape l)" "\<forall>d\<in>set hist. well_formed m d"
      have 1: "head_in_range l'"
        using step_preserves_range[OF continue(1) a(2)] .
      have 2: "m_blank_symbol m \<noteq> [] \<longrightarrow> [] \<notin> set (l_tape l')"
        using step_preserves_cells[OF continue(1) a(2) assms(2)] a(3) by blast
      have 3: "\<forall>x\<in>set (hist @ [d]). well_formed m x"
        using step_well_formed[OF continue(1) a(2) assms(2) a(3)] a(4) by simp
      from continue(4) a(1) 1 2 3 show "\<forall>d\<in>set (history out). well_formed m d"
        by blast
    qed
  qed (auto dest: step_well_formed[OF _ _ assms(2)])
  with assms show ?thesis by blast
qed

text \<open>With a step ceiling the loop returns, whatever the machine.\<close>

lemma run_loop_terminates:
  assumes "m_max_steps m = Some N"
  shows "\<exists>r. run_loop m l hist n = Some r"
proof (induction "nat (N - n)" arbitrary: l hist n rule: less_induct)
  case less
  show ?case
  proof (cases "step m l")
    case (Inl e)
    then show ?thesis by (subst run_loop.simps) simp
  next
    case (Inr s)
    show ?thesis
    proof (cases s)
      case None
      with Inr show ?thesis by (subst run_loop.simps) simp
    next
      case (Some p)
      obtain l' d where p: "p = (l', d)" by (cases p)
      show ?thesis
      proof (cases "l_current_state l' \<in> m_accept_states m \<or> N \<le> n + 1")
        case True
        with Inr Some p assms show ?thesis by (subst run_loop.simps) auto
      next
        case False
        then have "nat (N - (n + 1)) < nat (N - n)" by simp
        from less[OF this] obtain r where "run_loop m l' (hist @ [d]) (n + 1) = Some r" by blast
        with False Inr Some p assms show ?thesis by (subst run_loop.simps) auto
      qed
    qed
  qed
qed

text \<open>From a head inside the tape, and rules with a destination, it returns without an error.\<close>

lemma run_loop_returns:
  assumes "m_max_steps m = Some N"
    and "\<forall>k t. m_transition_map m k = Some t \<longrightarrow> next_state t \<noteq> []"
    and "head_in_range l"
  shows "\<exists>out. run_loop m l hist n = Some (Inr out)"
  using assms(3)
proof (induction "nat (N - n)" arbitrary: l hist n rule: less_induct)
  case less
  from step_in_range[OF less.prems assms(2)]
  consider "step m l = Inr None"
    | l' d where "step m l = Inr (Some (l', d))" "head_in_range l'"
    by blast
  then show ?case
  proof cases
    case 1
    then show ?thesis by (subst run_loop.simps) simp
  next
    case 2
    show ?thesis
    proof (cases "l_current_state l' \<in> m_accept_states m \<or> N \<le> n + 1")
      case True
      with 2 assms(1) show ?thesis by (subst run_loop.simps) auto
    next
      case False
      then have "nat (N - (n + 1)) < nat (N - n)" by simp
      from less.hyps[OF this 2(2)] obtain out where
        "run_loop m l' (hist @ [d]) (n + 1) = Some (Inr out)" by blast
      with False 2 assms(1) show ?thesis by (subst run_loop.simps) auto
    qed
  qed
qed

subsection \<open>Runs\<close>

lemma loop_head_run:
  assumes "loop_head m inp l hist n"
  shows "run m inp = run_loop m l hist n"
  using assms
proof (induction rule: loop_head.induct)
  case (enter d)
  then show ?case by (simp add: run_def)
next
  case (again l hist n l' d)
  have "run_loop m l hist n = run_loop m l' (hist @ [d]) (n + 1)"
    using again.hyps(2-4) by (subst run_loop.simps) simp
  with again.IH show ?case by simp
qed

lemma loop_head_steps:
  assumes "loop_head m inp l hist n"
  shows "0 \<le> n \<and> int (length hist) = n + 1"
  using assms by (induction rule: loop_head.induct) auto

lemma loop_head_below_ceiling:
  assumes "loop_head m inp l hist n" and "m_max_steps m = Some N" and "1 \<le> N"
  shows "n < N"
  using assms by (induction rule: loop_head.induct) auto

lemma run_history_length:
  assumes "run m inp = Some (Inr out)"
  shows "int (length (history out)) = steps out + 1"
proof (cases "exit out = InitialAccept")
  case True
  with assms show ?thesis
    by (auto simp: run_def Let_def split: sum.splits if_splits dest: run_loop_exit(1))
next
  case False
  with assms obtain d l where "run_loop m l [d] 0 = Some (Inr out)"
    by (auto simp: run_def Let_def split: sum.splits if_splits)
  from run_loop_history[OF this] show ?thesis by auto
qed

lemma validate_input_string_Inr:
  "validate_input_string m inp = Inr () \<longleftrightarrow> (\<forall>ch\<in>set inp. [ch] \<in> set (input_alphabet (m_config m)))"
  by (auto simp: validate_input_string_def invalid_symbols_def filter_empty_conv)

lemma run_InvalidSymbol_iff:
  "(\<exists>msg. run m inp = Some (Inl (InvalidSymbol msg))) \<longleftrightarrow> invalid_symbols m inp \<noteq> []"
proof
  assume "invalid_symbols m inp \<noteq> []"
  then show "\<exists>msg. run m inp = Some (Inl (InvalidSymbol msg))"
    by (simp add: run_def validate_input_string_def)
next
  assume "\<exists>msg. run m inp = Some (Inl (InvalidSymbol msg))"
  then obtain msg where r: "run m inp = Some (Inl (InvalidSymbol msg))" ..
  show "invalid_symbols m inp \<noteq> []"
  proof
    assume e: "invalid_symbols m inp = []"
    then have v: "validate_input_string m inp = Inr ()"
      by (simp add: validate_input_string_def)
    show False
    proof (cases "snapshot (initial_state (m_config m)) (initialize_tape m inp) 0")
      case (Inl e)
      with r v have "e = InvalidSymbol msg" by (simp add: run_def)
      with snapshot_Inl_not_InvalidSymbol[OF Inl] show False by simp
    next
      case (Inr d)
      with r v obtain l hist n where "run_loop m l hist n = Some (Inl (InvalidSymbol msg))"
        by (auto simp: run_def Let_def split: if_splits)
      from run_loop_not_InvalidSymbol[OF this] show False by simp
    qed
  qed
qed

lemma initialize_tape_in_range:
  "head_in_range \<lparr>l_tape = initialize_tape m inp, l_head_index = 0, l_current_state = q\<rparr>"
  by (cases inp) (simp_all add: head_in_range_def initialize_tape_def)

lemma initialize_tape_cells:
  "m_blank_symbol m \<noteq> [] \<longrightarrow> [] \<notin> set (initialize_tape m inp)"
  by (auto simp: initialize_tape_def)

lemma concat_initialize_tape:
  "concat (initialize_tape m inp) = (if inp = [] then m_blank_symbol m else inp)"
  by (simp add: initialize_tape_def concat_singletons)

text \<open>What holds at the top of the loop.\<close>

lemma loop_head_well_formed:
  assumes "loop_head m inp l hist n"
    and "\<forall>k t. m_transition_map m k = Some t \<longrightarrow> write_symbol t \<noteq> []"
  shows "head_in_range l \<and> (m_blank_symbol m \<noteq> [] \<longrightarrow> [] \<notin> set (l_tape l)) \<and>
         (\<forall>d\<in>set hist. well_formed m d)"
  using assms(1)
proof (induction rule: loop_head.induct)
  case (enter d)
  then show ?case
    using initialize_tape_in_range[of m inp] initialize_tape_cells[of m inp]
    by (auto simp: snapshot_Inr well_formed_def concat_initialize_tape)
next
  case (again l hist n l' d)
  then have r: "head_in_range l" and c: "m_blank_symbol m \<noteq> [] \<longrightarrow> [] \<notin> set (l_tape l)"
    and h: "\<forall>d\<in>set hist. well_formed m d"
    by simp_all
  have "head_in_range l'"
    using step_preserves_range[OF again.hyps(2) r] .
  moreover have "m_blank_symbol m \<noteq> [] \<longrightarrow> [] \<notin> set (l_tape l')"
    using step_preserves_cells[OF again.hyps(2) r assms(2)] c by blast
  moreover have "well_formed m d"
    using step_well_formed[OF again.hyps(2) r assms(2) c] .
  ultimately show ?case using h by simp
qed

subsection \<open>Runs on the store\<close>

lemma frame_refl: "frame A s s"
  by (simp add: frame_def)

lemma frame_trans: "frame A s s' \<Longrightarrow> frame A s' s'' \<Longrightarrow> frame A s s''"
  by (simp add: frame_def)

lemma frame_update: "a \<in> A \<Longrightarrow> frame A s (s[a := c])"
  by (auto simp: frame_def) (metis nth_list_update_neq)

lemma frame_mono: "frame A s s' \<Longrightarrow> A \<subseteq> B \<Longrightarrow> frame B s s'"
  by (auto simp: frame_def)

lemma loop_store_engine: "loop_store s self ta ha m tp hist \<Longrightarrow> the_engine s self = Inr m"
  by (simp add: loop_store_def the_engine_def)

lemma loop_store_list: "loop_store s self ta ha m tp hist \<Longrightarrow> the_list s ta = Inr tp"
  by (simp add: loop_store_def the_list_def)

lemma loop_store_trace: "loop_store s self ta ha m tp hist \<Longrightarrow> the_trace s ha = Inr hist"
  by (simp add: loop_store_def the_trace_def)

lemma loop_store_tape:
  "loop_store s self ta ha m tp hist \<Longrightarrow> loop_store (s[ta := StrList tp']) self ta ha m tp' hist"
  by (auto simp: loop_store_def nth_list_update)

lemma loop_store_history:
  "loop_store s self ta ha m tp hist \<Longrightarrow> loop_store (s[ha := Trace hist']) self ta ha m tp hist'"
  by (auto simp: loop_store_def nth_list_update)

lemma loop_store_same: "loop_store s self ta ha m tp hist \<Longrightarrow> s[ta := StrList tp] = s"
  by (metis loop_store_def list_update_id)

text \<open>A head move on the store is the head move on the tape it holds.\<close>

lemma move_head_store_sim:
  assumes "loop_store s self ta ha m tp hist"
  shows "move_head_store s self h mv ta =
     Inr (fst (move_head m h mv tp), s[ta := StrList (snd (move_head m h mv tp))])"
  using loop_store_engine[OF assms] loop_store_list[OF assms] loop_store_same[OF assms]
  by (simp add: move_head_store_def move_head_def)

lemma snapshot_store_sim:
  assumes "loop_store s self ta ha m tp hist"
  shows "snapshot_store s q ta h =
     (case snapshot q tp h of Inl e \<Rightarrow> Inl (Raised e, s) | Inr d \<Rightarrow> Inr d)"
  using loop_store_list[OF assms] by (simp add: snapshot_store_def)

text \<open>A step on the store is the step on the locals, and writes the tape only.\<close>

lemma step_store_sim:
  assumes "loop_store s self ta ha m tp hist"
  shows "case step m \<lparr>l_tape = tp, l_head_index = h, l_current_state = q\<rparr> of
           Inl e \<Rightarrow> (\<exists>s'. step_store s self ta h q = Inl (Raised e, s') \<and> frame {ta} s s')
         | Inr None \<Rightarrow> step_store s self ta h q = Inr None
         | Inr (Some (l', d)) \<Rightarrow>
             step_store s self ta h q =
               Inr (Some (s[ta := StrList (l_tape l')], l_head_index l', l_current_state l', d))"
proof (cases "list_getitem tp h")
  case (Inl e)
  with loop_store_list[OF assms] show ?thesis
    by (auto simp: step_def step_store_def frame_refl)
next
  case (Inr symbol)
  show ?thesis
  proof (cases "m_transition_map m (q, symbol)")
    case None
    with Inr loop_store_list[OF assms] loop_store_engine[OF assms] show ?thesis
      by (simp add: step_def step_store_def)
  next
    case (Some t)
    show ?thesis
    proof (cases "list_setitem tp h (write_symbol t)")
      case (Inl e)
      with Inr Some loop_store_list[OF assms] loop_store_engine[OF assms] show ?thesis
        by (auto simp: step_def step_store_def frame_refl)
    next
      case w: (Inr tp1)
      let ?s1 = "s[ta := StrList tp1]"
      have 1: "loop_store ?s1 self ta ha m tp1 hist"
        using assms by (rule loop_store_tape)
      obtain h' tp2 where mv: "move_head m h (move t) tp1 = (h', tp2)"
        by (cases "move_head m h (move t) tp1")
      let ?s2 = "s[ta := StrList tp2]"
      have ms: "move_head_store ?s1 self h (move t) ta = Inr (h', ?s2)"
        using move_head_store_sim[OF 1, of h "move t"] mv by simp
      have 2: "loop_store ?s2 self ta ha m tp2 hist"
        using assms by (rule loop_store_tape)
      have f: "frame {ta} s ?s2"
        by (simp add: frame_update)
      from Inr Some w mv ms snapshot_store_sim[OF 2, of "next_state t" h'] f
        loop_store_list[OF assms] loop_store_engine[OF assms]
      show ?thesis
        by (auto simp: step_def step_store_def split: sum.splits)
    qed
  qed
qed

lemmas run_loop_store_raw =
  run_loop_store.raw_induct[rotated 1, consumes 1, case_names body]

text \<open>One iteration on the store, from the step on the locals.\<close>

lemma run_loop_store_unfold:
  assumes "loop_store s self ta ha m (l_tape l) hist"
  shows "case step m l of
           Inl e \<Rightarrow> (\<exists>s'. run_loop_store s self ta (l_head_index l) (l_current_state l) ha n =
                         Some (Inl (Raised e, s')) \<and> frame {ta} s s')
         | Inr None \<Rightarrow>
             run_loop_store s self ta (l_head_index l) (l_current_state l) ha n =
               Some (Inr ((ha, False), s))
         | Inr (Some (l', d)) \<Rightarrow>
             (let s' = s[ta := StrList (l_tape l'), ha := Trace (hist @ [d])] in
              loop_store s' self ta ha m (l_tape l') (hist @ [d]) \<and> frame {ta, ha} s s' \<and>
              run_loop_store s self ta (l_head_index l) (l_current_state l) ha n =
                (if l_current_state l' \<in> m_accept_states m then Some (Inr ((ha, True), s'))
                 else if (case m_max_steps m of None \<Rightarrow> False | Some N \<Rightarrow> n + 1 \<ge> N) then
                   Some (Inr ((ha, l_current_state l' \<in> m_accept_states m), s'))
                 else run_loop_store s' self ta (l_head_index l') (l_current_state l') ha (n + 1)))"
proof -
  have l: "\<lparr>l_tape = l_tape l, l_head_index = l_head_index l, l_current_state = l_current_state l\<rparr> = l"
    by simp
  note sim = step_store_sim[OF assms, of "l_head_index l" "l_current_state l", unfolded l]
  show ?thesis
  proof (cases "step m l")
    case (Inl e)
    with sim show ?thesis by (subst run_loop_store.simps) auto
  next
    case (Inr r)
    show ?thesis
    proof (cases r)
      case None
      with Inr sim show ?thesis by (subst run_loop_store.simps) auto
    next
      case (Some p)
      obtain l' d where p: "p = (l', d)" by (cases p)
      let ?s1 = "s[ta := StrList (l_tape l')]"
      let ?s2 = "?s1[ha := Trace (hist @ [d])]"
      have st: "step_store s self ta (l_head_index l) (l_current_state l) =
          Inr (Some (?s1, l_head_index l', l_current_state l', d))"
        using sim Inr Some p by simp
      have 1: "loop_store ?s1 self ta ha m (l_tape l') hist"
        using assms by (rule loop_store_tape)
      then have 2: "loop_store ?s2 self ta ha m (l_tape l') (hist @ [d])"
        by (rule loop_store_history)
      have ap: "trace_append ?s1 ha d = Inr ?s2"
        using loop_store_trace[OF 1] by (simp add: trace_append_def)
      have f: "frame {ta, ha} s ?s2"
        by (rule frame_trans[of _ _ ?s1]) (simp_all add: frame_update)
      show ?thesis
        using Inr Some p st ap 2 f loop_store_engine[OF 2]
        by (subst run_loop_store.simps) (simp add: Let_def)
    qed
  qed
qed

text \<open>If the loop on the locals returns, the loop on the store returns the same.\<close>

lemma run_loop_store_returns:
  assumes "run_loop m l hist n = Some r"
    and "loop_store s self ta ha m (l_tape l) hist"
  shows "\<exists>x. run_loop_store s self ta (l_head_index l) (l_current_state l) ha n = Some x \<and>
           frame {ta, ha} s (final_store x) \<and>
           (case r of
              Inl e \<Rightarrow> (\<exists>s'. x = Inl (Raised e, s'))
            | Inr out \<Rightarrow> (\<exists>s'. x = Inr ((ha, accepted out), s') \<and> ha < length s' \<and>
                              s' ! ha = Trace (history out)))"
  using assms
proof (induction l hist n r arbitrary: s rule: run_loop_induct)
  case (error l hist n e)
  from run_loop_store_unfold[OF error(2), of n] error(1) show ?case
    by (auto simp: final_store_def elim: frame_mono)
next
  case (omission l hist n)
  from run_loop_store_unfold[OF omission(2), of n] omission(1) omission(2) show ?case
    by (auto simp: final_store_def frame_refl loop_store_def)
next
  case (accept l hist n l' d)
  from run_loop_store_unfold[OF accept(3), of n] accept(1,2) show ?case
    by (auto simp: final_store_def Let_def loop_store_def)
next
  case (ceiling l hist n l' d N)
  from run_loop_store_unfold[OF ceiling(5), of n] ceiling(1-4) show ?case
    by (auto simp: final_store_def Let_def loop_store_def)
next
  case (continue l hist n l' d r)
  let ?s' = "s[ta := StrList (l_tape l'), ha := Trace (hist @ [d])]"
  from run_loop_store_unfold[OF continue.prems, of n] continue(1)
  have 1: "loop_store ?s' self ta ha m (l_tape l') (hist @ [d])" and f: "frame {ta, ha} s ?s'"
    and u: "run_loop_store s self ta (l_head_index l) (l_current_state l) ha n =
       (if l_current_state l' \<in> m_accept_states m then Some (Inr ((ha, True), ?s'))
        else if (case m_max_steps m of None \<Rightarrow> False | Some N \<Rightarrow> n + 1 \<ge> N) then
          Some (Inr ((ha, l_current_state l' \<in> m_accept_states m), ?s'))
        else run_loop_store ?s' self ta (l_head_index l') (l_current_state l') ha (n + 1))"
    by (simp_all add: Let_def)
  have nc: "\<not> (case m_max_steps m of None \<Rightarrow> False | Some N \<Rightarrow> n + 1 \<ge> N)"
    using continue(3) by (auto split: option.splits)
  from u continue(2) nc have
    "run_loop_store s self ta (l_head_index l) (l_current_state l) ha n =
       run_loop_store ?s' self ta (l_head_index l') (l_current_state l') ha (n + 1)"
    by simp
  with continue.IH[OF 1] f show ?case
    by (auto intro: frame_trans)
qed

text \<open>If the loop on the store returns, the loop on the locals returns.\<close>

lemma run_loop_store_terminates:
  assumes "run_loop_store s self ta h q ha n = Some x"
    and "loop_store s self ta ha m tp hist"
  shows "\<exists>r. run_loop m \<lparr>l_tape = tp, l_head_index = h, l_current_state = q\<rparr> hist n = Some r"
proof -
  have "\<forall>tp hist. loop_store s self ta ha m tp hist \<longrightarrow>
          (\<exists>r. run_loop m \<lparr>l_tape = tp, l_head_index = h, l_current_state = q\<rparr> hist n = Some r)"
    using assms(1)
  proof (induction s self ta h q ha n x rule: run_loop_store_raw)
    case (body f s self ta h q ha n x)
    show ?case
    proof (intro allI impI)
      fix tp hist
      assume ls: "loop_store s self ta ha m tp hist"
      let ?l = "\<lparr>l_tape = tp, l_head_index = h, l_current_state = q\<rparr>"
      have ls': "loop_store s self ta ha m (l_tape ?l) hist"
        using ls by simp
      show "\<exists>r. run_loop m ?l hist n = Some r"
      proof (cases "step m ?l")
        case (Inl e)
        then show ?thesis by (subst run_loop.simps) simp
      next
        case (Inr r)
        show ?thesis
        proof (cases r)
          case None
          with Inr show ?thesis by (subst run_loop.simps) simp
        next
          case (Some p)
          obtain l' d where p: "p = (l', d)" by (cases p)
          show ?thesis
          proof (cases "l_current_state l' \<in> m_accept_states m \<or>
              (case m_max_steps m of None \<Rightarrow> False | Some N \<Rightarrow> n + 1 \<ge> N)")
            case True
            with Inr Some p show ?thesis by (subst run_loop.simps) auto
          next
            case False
            let ?s1 = "s[ta := StrList (l_tape l')]"
            let ?s2 = "?s1[ha := Trace (hist @ [d])]"
            have st: "step_store s self ta h q =
                Inr (Some (?s1, l_head_index l', l_current_state l', d))"
              using step_store_sim[OF ls, of h q] Inr Some p by simp
            have 1: "loop_store ?s1 self ta ha m (l_tape l') hist"
              using ls by (rule loop_store_tape)
            then have 2: "loop_store ?s2 self ta ha m (l_tape l') (hist @ [d])"
              by (rule loop_store_history)
            have ap: "trace_append ?s1 ha d = Inr ?s2"
              using loop_store_trace[OF 1] by (simp add: trace_append_def)
            have "f ?s2 self ta (l_head_index l') (l_current_state l') ha (n + 1) = Some x"
              using body(2) st ap loop_store_engine[OF 2] False by simp
            from body(1)[OF this] 2 obtain r' where
              "run_loop m \<lparr>l_tape = l_tape l', l_head_index = l_head_index l',
                 l_current_state = l_current_state l'\<rparr> (hist @ [d]) (n + 1) = Some r'"
              by blast
            moreover have "\<lparr>l_tape = l_tape l', l_head_index = l_head_index l',
                 l_current_state = l_current_state l'\<rparr> = l'"
              by simp
            ultimately have "run_loop m l' (hist @ [d]) (n + 1) = Some r'"
              by (simp only:)
            with Inr Some p False show ?thesis by (subst run_loop.simps) auto
          qed
        qed
      qed
    qed
  qed
  with assms(2) show ?thesis by blast
qed

lemma enumerates_sort:
  assumes "enumerates it"
  shows "sort (it xs) = sort (remdups xs)"
  using assms by (intro sorted_distinct_set_unique) (simp_all add: enumerates_def)

lemma take_frame:
  assumes "frame A (s @ ext) s'" and "\<forall>a\<in>A. length s \<le> a"
  shows "take (length s) s' = s"
proof (rule nth_equalityI)
  show "length (take (length s) s') = length s"
    using assms(1) by (simp add: frame_def)
next
  fix i
  assume "i < length (take (length s) s')"
  then have i: "i < length s" by simp
  with assms(2) have "i \<notin> A" by auto
  with assms(1) i have "s' ! i = (s @ ext) ! i" by (simp add: frame_def)
  with i show "take (length s) s' ! i = s ! i" by (simp add: nth_append)
qed

text \<open>
  A run on the store returns what the run on the engine's value returns, or neither
  returns; and it leaves every cell that was there as it was.
\<close>

lemma run_store_sim:
  assumes self: "self < length s" "s ! self = Engine m" and it: "enumerates it"
  shows "map_option observe (run_store it s self inp) = map_option returned (run m inp) \<and>
         (\<forall>x. run_store it s self inp = Some x \<longrightarrow> take (length s) (final_store x) = s)"
proof -
  let ?q = "initial_state (m_config m)"
  let ?tp = "initialize_tape m inp"
  let ?ta = "length s"
  let ?s1 = "s @ [StrList ?tp]"
  let ?ha = "Suc (length s)"
  have eng: "the_engine s self = Inr m"
    using self by (simp add: the_engine_def)
  have eng1: "the_engine ?s1 self = Inr m"
    using self by (simp add: the_engine_def nth_append)
  have ini: "initialize_tape_store s self inp = Inr (?ta, ?s1)"
    using eng by (simp add: initialize_tape_store_def initialize_tape_def alloc_def)
  have snap: "snapshot_store ?s1 ?q ?ta 0 =
      (case snapshot ?q ?tp 0 of Inl e \<Rightarrow> Inl (Raised e, ?s1) | Inr d \<Rightarrow> Inr d)"
    by (simp add: snapshot_store_def the_list_def)
  show ?thesis
  proof (cases "invalid_symbols m inp = []")
    case False
    then show ?thesis
      using eng enumerates_sort[OF it]
      by (simp add: run_store_def run_def validate_input_string_store_def
          validate_input_string_def observe_def returned_def final_store_def)
  next
    case True
    then have v: "validate_input_string_store it s self inp = Inr ()"
      "validate_input_string m inp = Inr ()"
      using eng by (simp_all add: validate_input_string_store_def validate_input_string_def)
    show ?thesis
    proof (cases "snapshot ?q ?tp 0")
      case (Inl e)
      with v ini eng1 snap show ?thesis
        by (simp add: run_store_def run_def observe_def returned_def final_store_def)
    next
      case (Inr d)
      let ?s2 = "?s1 @ [Trace [d]]"
      have al: "alloc ?s1 (Trace [d]) = (?ha, ?s2)"
        by (simp add: alloc_def)
      show ?thesis
      proof (cases "?q \<in> m_accept_states m")
        case True
        with v ini eng1 snap Inr al show ?thesis
          by (simp add: run_store_def run_def observe_def returned_def final_store_def
              the_trace_def nth_append)
      next
        case False
        let ?l = "\<lparr>l_tape = ?tp, l_head_index = 0, l_current_state = ?q\<rparr>"
        have rs: "run_store it s self inp = run_loop_store ?s2 self ?ta 0 ?q ?ha 0"
          using v ini eng1 snap Inr al False by (simp add: run_store_def)
        have rf: "run m inp = run_loop m ?l [d] 0"
          using v Inr False by (simp add: run_def Let_def)
        have ls: "loop_store ?s2 self ?ta ?ha m (l_tape ?l) [d]"
          using self by (simp add: loop_store_def nth_append)
        have ret: "\<exists>x. run_loop_store ?s2 self ?ta 0 ?q ?ha 0 = Some x \<and>
            observe x = returned r \<and> take (length s) (final_store x) = s"
          if r: "run_loop m ?l [d] 0 = Some r" for r
        proof -
          from run_loop_store_returns[OF r ls] obtain x where
            x: "run_loop_store ?s2 self ?ta 0 ?q ?ha 0 = Some x"
            and f: "frame {?ta, ?ha} ?s2 (final_store x)"
            and c: "case r of
                Inl e \<Rightarrow> (\<exists>s'. x = Inl (Raised e, s'))
              | Inr out \<Rightarrow> (\<exists>s'. x = Inr ((?ha, accepted out), s') \<and> ?ha < length s' \<and>
                                s' ! ?ha = Trace (history out))"
            by auto
          have "frame {?ta, ?ha} (s @ [StrList ?tp, Trace [d]]) (final_store x)"
            using f by simp
          then have "take (length s) (final_store x) = s"
            by (rule take_frame) simp
          moreover have "observe x = returned r"
            using c by (auto simp: observe_def returned_def the_trace_def split: sum.splits)
          ultimately show ?thesis using x by blast
        qed
        show ?thesis
        proof (cases "run_loop m ?l [d] 0")
          case None
          have "run_loop_store ?s2 self ?ta 0 ?q ?ha 0 = None"
          proof (cases "run_loop_store ?s2 self ?ta 0 ?q ?ha 0")
            case (Some x)
            have "loop_store ?s2 self ?ta ?ha m ?tp [d]"
              using ls by simp
            from run_loop_store_terminates[OF Some this] None show ?thesis by simp
          qed simp
          with rs rf None show ?thesis by simp
        next
          case (Some r)
          from ret[OF Some] rs rf Some show ?thesis by auto
        qed
      qed
    qed
  qed
qed

lemma enumerates_remdups: "enumerates remdups"
  by (simp add: enumerates_def)

lemma enumerates_remdups_rev: "enumerates (remdups \<circ> rev)"
  by (simp add: enumerates_def)

subsection \<open>Construction of the engine\<close>

lemma build_states_Inr:
  assumes "\<forall>s\<in>set ns. s \<noteq> []"
  shows "build_states d ns = Inr (\<lambda>s. if s \<in> set ns then Some (State s) else d s)"
  using assms
proof (induction ns arbitrary: d)
  case Nil
  then show ?case by simp
next
  case (Cons n ns)
  then show ?case by (auto simp: State_post_init_def fun_eq_iff)
qed

lemma build_states_Inl:
  assumes "[] \<in> set ns"
  shows "build_states d ns = Inl InvalidStateName"
  using assms
  by (induction ns arbitrary: d) (auto simp: State_post_init_def)

lemma build_states_cases:
  "build_states Map.empty ns =
     (if [] \<in> set ns then Inl InvalidStateName
      else Inr (\<lambda>s. if s \<in> set ns then Some (State s) else None))"
  using build_states_Inr[of ns Map.empty] build_states_Inl[of ns Map.empty] by auto

text \<open>When the table is built, every rule passed the three checks and is stored under its signature.\<close>

lemma build_transition_map_Inr:
  "build_transition_map sts tm ts = Inr tm' \<longleftrightarrow>
     distinct (map signature ts) \<and>
     (\<forall>t\<in>set ts. tm (signature t) = None \<and> sts (current_state t) \<noteq> None \<and>
        sts (next_state t) \<noteq> None) \<and>
     tm' = (\<lambda>k. case find (\<lambda>t. signature t = k) ts of None \<Rightarrow> tm k | Some t \<Rightarrow> Some t)"
proof (induction ts arbitrary: tm)
  case Nil
  then show ?case by auto
next
  case (Cons t ts)
  show ?case
  proof (cases "tm (signature t) = None \<and> sts (current_state t) \<noteq> None \<and> sts (next_state t) \<noteq> None")
    case False
    then show ?thesis by (auto simp: Let_def)
  next
    case True
    then have "build_transition_map sts tm (t # ts) =
        build_transition_map sts (tm(signature t \<mapsto> t)) ts"
      by (auto simp: Let_def)
    also have "\<dots> = Inr tm' \<longleftrightarrow>
       distinct (map signature ts) \<and>
       (\<forall>u\<in>set ts. (tm(signature t \<mapsto> t)) (signature u) = None \<and> sts (current_state u) \<noteq> None \<and>
          sts (next_state u) \<noteq> None) \<and>
       tm' = (\<lambda>k. case find (\<lambda>u. signature u = k) ts of
                     None \<Rightarrow> (tm(signature t \<mapsto> t)) k | Some u \<Rightarrow> Some u)"
      by (rule Cons.IH)
    also have "\<dots> \<longleftrightarrow>
       distinct (map signature (t # ts)) \<and>
       (\<forall>u\<in>set (t # ts). tm (signature u) = None \<and> sts (current_state u) \<noteq> None \<and>
          sts (next_state u) \<noteq> None) \<and>
       tm' = (\<lambda>k. case find (\<lambda>u. signature u = k) (t # ts) of None \<Rightarrow> tm k | Some u \<Rightarrow> Some u)"
      (is "?A \<and> ?B \<and> tm' = ?f \<longleftrightarrow> ?A' \<and> ?B' \<and> tm' = ?f'")
    proof -
      have AB: "?A \<and> ?B \<longleftrightarrow> ?A' \<and> ?B'"
        using True by (auto split: if_splits) (metis imageI)+
      have "?f = ?f'" if "?A'"
      proof
        fix k
        show "?f k = ?f' k"
        proof (cases "signature t = k")
          case True
          with that have "find (\<lambda>u. signature u = k) ts = None"
            by (auto simp: find_None_iff) (metis imageI)
          with True show ?thesis by simp
        next
          case False
          then show ?thesis by (simp split: option.split)
        qed
      qed
      with AB show ?thesis by auto
    qed
    finally show ?thesis .
  qed
qed

lemma build_transition_map_Inl:
  assumes "build_transition_map sts tm ts = Inl e"
  shows "(is_DuplicateTransition e \<and>
            (\<not> distinct (map signature ts) \<or> (\<exists>t\<in>set ts. tm (signature t) \<noteq> None))) \<or>
         (is_DanglingState e \<and>
            (\<exists>t\<in>set ts. sts (current_state t) = None \<or> sts (next_state t) = None))"
  using assms
proof (induction ts arbitrary: tm)
  case Nil
  then show ?case by simp
next
  case (Cons t ts)
  show ?case
  proof (cases "tm (signature t) = None \<and> sts (current_state t) \<noteq> None \<and> sts (next_state t) \<noteq> None")
    case False
    with Cons.prems show ?thesis by (auto simp: Let_def split: if_splits)
  next
    case True
    with Cons.prems have "build_transition_map sts (tm(signature t \<mapsto> t)) ts = Inl e"
      by (auto simp: Let_def)
    from Cons.IH[OF this] True show ?thesis
      by (auto split: if_splits) (metis imageI)+
  qed
qed

lemma find_signature:
  assumes "distinct (map signature ts)" "t \<in> set ts"
  shows "find (\<lambda>u. signature u = signature t) ts = Some t"
  using assms by (induction ts) (auto simp: rev_image_eqI)

lemma Machine_init_fields:
  assumes "Machine_init c ms = Inr m"
  shows "m_config m = c" "m_accept_states m = set (accept_states c)"
    "m_blank_symbol m = blank_symbol c" "m_max_steps m = ms"
  using assms by (auto simp: Machine_init_def split: sum.splits)

lemma Machine_init_Inr:
  assumes "\<forall>s\<in>set (states c). s \<noteq> []"
  shows "Machine_init c ms = Inr m \<longleftrightarrow>
     \<not> shares_signature c \<and> \<not> undeclared_state c \<and>
     m = \<lparr>m_config = c,
          m_states = (\<lambda>s. if s \<in> set (states c) then Some (State s) else None),
          m_accept_states = set (accept_states c), m_blank_symbol = blank_symbol c,
          m_max_steps = ms,
          m_transition_map = (\<lambda>k. find (\<lambda>t. signature t = k) (transitions c))\<rparr>"
proof -
  let ?sts = "\<lambda>s. if s \<in> set (states c) then Some (State s) else None"
  have b: "build_states Map.empty (states c) = Inr ?sts"
    using assms by (auto simp: build_states_cases)
  have f: "(\<lambda>k. case find (\<lambda>t. signature t = k) (transitions c) of None \<Rightarrow> None | Some t \<Rightarrow> Some t)
      = (\<lambda>k. find (\<lambda>t. signature t = k) (transitions c))"
    by (auto simp: fun_eq_iff split: option.splits)
  show ?thesis
  proof (cases "build_transition_map ?sts Map.empty (transitions c)")
    case (Inl e)
    have "shares_signature c \<or> undeclared_state c"
      using build_transition_map_Inl[OF Inl]
      by (auto simp: shares_signature_def undeclared_state_def list_ex_iff split: if_splits)
    with Inl b show ?thesis by (auto simp: Machine_init_def)
  next
    case (Inr tm)
    from Inr[unfolded build_transition_map_Inr] f
    have "\<not> shares_signature c" "\<not> undeclared_state c"
      "tm = (\<lambda>k. find (\<lambda>t. signature t = k) (transitions c))"
      by (auto simp: shares_signature_def undeclared_state_def list_ex_iff split: if_splits)
    with Inr b show ?thesis by (auto simp: Machine_init_def)
  qed
qed

lemma Machine_init_Inl:
  assumes "\<forall>s\<in>set (states c). s \<noteq> []" and "Machine_init c ms = Inl e"
  shows "(is_DuplicateTransition e \<and> shares_signature c) \<or>
         (is_DanglingState e \<and> undeclared_state c)"
proof -
  let ?sts = "\<lambda>s. if s \<in> set (states c) then Some (State s) else None"
  have b: "build_states Map.empty (states c) = Inr ?sts"
    using assms(1) by (auto simp: build_states_cases)
  with assms(2) have "build_transition_map ?sts Map.empty (transitions c) = Inl e"
    by (auto simp: Machine_init_def split: sum.splits)
  from build_transition_map_Inl[OF this] show ?thesis
    by (auto simp: shares_signature_def undeclared_state_def list_ex_iff split: if_splits)
qed

lemma Machine_init_rule:
  assumes "Machine_init c ms = Inr m" and "m_transition_map m k = Some t"
  shows "t \<in> set (transitions c)"
proof -
  from assms(1) obtain sts where
    "build_transition_map sts Map.empty (transitions c) = Inr (m_transition_map m)"
    by (auto simp: Machine_init_def split: sum.splits)
  then have "m_transition_map m k =
      (case find (\<lambda>t. signature t = k) (transitions c) of None \<Rightarrow> None | Some t \<Rightarrow> Some t)"
    by (simp add: build_transition_map_Inr)
  with assms(2) show ?thesis
    by (auto split: option.splits simp: find_Some_iff)
qed

lemma validated_initial_state: "validated c \<Longrightarrow> initial_state c \<noteq> []"
  by (auto simp: validated_def MachineConfig_post_init_def split: if_splits)

lemma validated_rule:
  assumes "validated c" and "t \<in> set (transitions c)"
  shows "next_state t \<noteq> []" and "write_symbol t \<noteq> []"
proof -
  from assms have "Transition_post_init t = Inr t"
    by (auto simp: validated_def list_all_iff)
  then show "next_state t \<noteq> []" and "write_symbol t \<noteq> []"
    by (auto simp: Transition_post_init_def split: if_splits)
qed

lemma Machine_init_rules:
  assumes "validated c" and "Machine_init c ms = Inr m"
  shows "\<forall>k t. m_transition_map m k = Some t \<longrightarrow> next_state t \<noteq> []"
    and "\<forall>k t. m_transition_map m k = Some t \<longrightarrow> write_symbol t \<noteq> []"
  using validated_rule[OF assms(1)] Machine_init_rule[OF assms(2)] by blast+

subsection \<open>The example machines\<close>

lemmas ex_defs = ex_config_def ex_machine_def ex_rule_0_def ex_rule_1_def ex_locals_def
  ex_snapshot_def ex_accepting_config_def ex_accepting_machine_def ex_rule_dangling_def
  ex_duplicate_config_def ex_unnamed_config_def ex_blank_config_def

lemmas run_defs = validated_def MachineConfig_post_init_def Transition_post_init_def VALID_MOVES_def
  Machine_init_def State_post_init_def signature_def

lemma ex_validated: "validated ex_config"
  by (simp add: validated_def MachineConfig_post_init_def Transition_post_init_def VALID_MOVES_def
      ex_config_def ex_rule_0_def ex_rule_1_def)

lemma ex_machine_init: "Machine_init ex_config ms = Inr (ex_machine ms)"
  by (simp add: Machine_init_def ex_config_def ex_machine_def State_post_init_def signature_def
      ex_rule_0_def ex_rule_1_def)

lemma ex_accepting_validated: "validated ex_accepting_config"
  by (simp add: run_defs ex_defs)

lemma ex_accepting_init: "Machine_init ex_accepting_config None = Inr ex_accepting_machine"
  by (simp add: run_defs ex_defs)

lemma ex_duplicate_validated: "validated ex_duplicate_config"
  by (simp add: run_defs ex_defs)

lemma ex_unnamed_validated: "validated ex_unnamed_config"
  by (simp add: run_defs ex_defs)

lemma ex_blank_validated: "validated ex_blank_config"
  by (simp add: run_defs ex_defs)

text \<open>The first machine reads a run of zeros: each step moves right and stays in \<open>q0\<close>.\<close>

lemma ex_enter_zeros:
  assumes "inp \<noteq> []" and "set inp \<subseteq> {CHR ''0''}"
  shows "loop_head (ex_machine ms) inp (ex_locals (map (\<lambda>ch. [ch]) inp) 0) [ex_snapshot inp 0] 0"
proof -
  have "validate_input_string (ex_machine ms) inp = Inr ()"
    using assms(2) by (auto simp: validate_input_string_Inr ex_defs)
  moreover have "snapshot (initial_state (m_config (ex_machine ms)))
      (initialize_tape (ex_machine ms) inp) 0 = Inr (ex_snapshot inp 0)"
    using assms(1) by (simp add: snapshot_Inr concat_initialize_tape ex_defs)
  moreover have "initial_state (m_config (ex_machine ms)) \<notin> m_accept_states (ex_machine ms)"
    by (simp add: ex_defs)
  ultimately show ?thesis
    using loop_head.enter[of "ex_machine ms" inp "ex_snapshot inp 0"] assms(1)
    by (simp add: initialize_tape_def ex_defs)
qed

lemma ex_step:
  assumes "0 \<le> h" and "h + 1 < int (length tp)" and "tp ! nat h = ''0''"
  shows "step (ex_machine ms) (ex_locals tp h) =
     Inr (Some (ex_locals tp (h + 1), ex_snapshot (concat tp) (h + 1)))"
proof -
  have "tp[nat h := ''0''] = tp"
    using assms(3) by (metis list_update_id)
  with assms(1,2) show ?thesis
    by (simp add: step_def list_getitem_def list_setitem_def move_head_def snapshot_def
        InstantDescription_post_init_def ex_machine_def ex_locals_def ex_snapshot_def
        ex_rule_0_def assms(3))
qed

lemma ex_step_append:
  "step (ex_machine ms) (ex_locals [''0''] 0) =
     Inr (Some (ex_locals [''0'', ''B''] 1, ex_snapshot ''0B'' 1))"
  by (simp add: step_def list_getitem_def list_setitem_def move_head_def snapshot_def
      InstantDescription_post_init_def ex_defs)

lemma ex_loop_head_1:
  "loop_head (ex_machine None) ''0'' (ex_locals [''0'', ''B''] 1)
     [ex_snapshot ''0'' 0, ex_snapshot ''0B'' 1] 1"
  using loop_head.again[OF ex_enter_zeros[of "''0''" None] ] ex_step_append[of None]
  by (simp add: ex_defs)

lemma ex_loop_head_2:
  "loop_head (ex_machine (Some 3)) ''0000'' (ex_locals [''0'', ''0'', ''0'', ''0''] 2)
     [ex_snapshot ''0000'' 0, ex_snapshot ''0000'' 1, ex_snapshot ''0000'' 2] 2"
proof -
  have 0: "loop_head (ex_machine (Some 3)) ''0000'' (ex_locals [''0'', ''0'', ''0'', ''0''] 0)
      [ex_snapshot ''0000'' 0] 0"
    using ex_enter_zeros[of "''0000''" "Some 3"] by simp
  have 1: "loop_head (ex_machine (Some 3)) ''0000'' (ex_locals [''0'', ''0'', ''0'', ''0''] 1)
      [ex_snapshot ''0000'' 0, ex_snapshot ''0000'' 1] 1"
    using loop_head.again[OF 0 ex_step] by (simp add: ex_machine_def ex_locals_def)
  show ?thesis
    using loop_head.again[OF 1 ex_step] by (simp add: ex_machine_def ex_locals_def)
qed

lemma ex_run_ceiling:
  "run (ex_machine (Some 3)) ''0000'' =
     Some (Inr \<lparr>history = [ex_snapshot ''0000'' 0, ex_snapshot ''0000'' 1, ex_snapshot ''0000'' 2,
                            ex_snapshot ''0000'' 3],
                accepted = False, steps = 3, exit = Ceiling\<rparr>)"
  by code_simp

lemma ex_run_zero_ceiling:
  "run (ex_machine (Some 0)) ''0000'' =
     Some (Inr \<lparr>history = [ex_snapshot ''0000'' 0, ex_snapshot ''0000'' 1],
                accepted = False, steps = 1, exit = Ceiling\<rparr>)"
  by code_simp

section \<open>The claims\<close>

text \<open>
  C1, halt by omission. Whenever, during a run, control stands at the top of the loop, the
  symbol under the head is read and the pair of the current state and that symbol has no
  entry in the transition table, the run returns at once: the verdict is rejected, the
  trace is the history recorded so far with nothing appended, and its length is the number
  of executed steps plus one.
\<close>

theorem halt_by_omission:
  assumes "loop_head m inp l hist n"
    and "list_getitem (l_tape l) (l_head_index l) = Inr symbol"
    and "m_transition_map m (l_current_state l, symbol) = None"
  shows "run m inp = Some (Inr \<lparr>history = hist, accepted = False, steps = n, exit = Omission\<rparr>)
         \<and> int (length hist) = n + 1"
proof -
  have "step m l = Inr None"
    using assms(2,3) by (simp add: step_def)
  then have "run_loop m l hist n =
      Some (Inr \<lparr>history = hist, accepted = False, steps = n, exit = Omission\<rparr>)"
    by (subst run_loop.simps) simp
  with loop_head_run[OF assms(1)] loop_head_steps[OF assms(1)] show ?thesis by simp
qed

text \<open>
  The first machine on the input \<open>0\<close>: after one step the head stands on a blank in
  state \<open>q0\<close>, for which there is no rule.
\<close>

theorem halt_by_omission_witness:
  "loop_head (ex_machine None) ''0'' (ex_locals [''0'', ''B''] 1)
     [ex_snapshot ''0'' 0, ex_snapshot ''0B'' 1] 1 \<and>
   run (ex_machine None) ''0'' =
     Some (Inr \<lparr>history = [ex_snapshot ''0'' 0, ex_snapshot ''0B'' 1], accepted = False,
                steps = 1, exit = Omission\<rparr>)"
  using halt_by_omission[OF ex_loop_head_1, of "''B''"] ex_loop_head_1
  by (simp add: list_getitem_def ex_defs)



text \<open>
  C3, immediate accept. For a validated definition whose initial state is an accept
  state, and every input over the input alphabet, the run executes no step and returns
  the verdict accepted with a trace of exactly one snapshot, that of the initial
  configuration: the initial state, the input as the tape (one blank for the empty input)
  and the head at index 0.
\<close>

theorem immediate_accept:
  assumes "validated c" and "Machine_init c ms = Inr m"
    and "\<forall>ch\<in>set inp. [ch] \<in> set (input_alphabet c)"
    and "initial_state c \<in> set (accept_states c)"
  shows "run m inp =
     Some (Inr \<lparr>history = [\<lparr>state = initial_state c,
                             tape = (if inp = [] then blank_symbol c else inp),
                             head_position = 0\<rparr>],
                accepted = True, steps = 0, exit = InitialAccept\<rparr>)"
proof -
  note f = Machine_init_fields[OF assms(2)]
  have v: "validate_input_string m inp = Inr ()"
    using assms(3) f(1) by (simp add: validate_input_string_Inr)
  have s: "snapshot (initial_state c) (initialize_tape m inp) 0 =
      Inr \<lparr>state = initial_state c, tape = (if inp = [] then blank_symbol c else inp),
           head_position = 0\<rparr>"
    using validated_initial_state[OF assms(1)] f(3)
    by (simp add: snapshot_Inr initialize_tape_def concat_singletons)
  show ?thesis
    using v s assms(4) f(1,2) by (simp add: run_def)
qed

theorem immediate_accept_witness:
  "run ex_accepting_machine ''01'' =
     Some (Inr \<lparr>history = [\<lparr>state = ''q0'', tape = ''01'', head_position = 0\<rparr>],
                accepted = True, steps = 0, exit = InitialAccept\<rparr>)"
  using immediate_accept[OF ex_accepting_validated ex_accepting_init, of "''01''"]
  by (simp add: ex_defs)

text \<open>
  C4, step ceiling, as amended: for a step ceiling \<open>N\<close> of at least 1. Every run
  returns; at the top of the loop fewer than \<open>N\<close> steps have been executed; and when the
  step that is executed is the \<open>N\<close>-th, the run returns right after it with \<open>N + 1\<close>
  snapshots, \<open>N\<close> executed steps and the verdict accepted exactly when the state reached is
  an accept state.
\<close>

theorem step_ceiling:
  assumes "m_max_steps m = Some N" and "1 \<le> N"
  shows "(\<exists>r. run m inp = Some r) \<and>
         (\<forall>l hist n. loop_head m inp l hist n \<longrightarrow> n < N) \<and>
         (\<forall>l hist n l' d.
            loop_head m inp l hist n \<and> n + 1 = N \<and> step m l = Inr (Some (l', d)) \<longrightarrow>
            int (length (hist @ [d])) = N + 1 \<and>
            run m inp =
              Some (Inr \<lparr>history = hist @ [d],
                         accepted = (l_current_state l' \<in> m_accept_states m),
                         steps = N,
                         exit = (if l_current_state l' \<in> m_accept_states m then Accept
                                 else Ceiling)\<rparr>))"
proof (intro conjI allI impI)
  show "\<exists>r. run m inp = Some r"
    using run_loop_terminates[OF assms(1)]
    by (auto simp: run_def Let_def split: sum.splits)
next
  fix l hist n
  assume "loop_head m inp l hist n"
  from loop_head_below_ceiling[OF this assms] show "n < N" .
next
  fix l hist n l' d
  assume a: "loop_head m inp l hist n \<and> n + 1 = N \<and> step m l = Inr (Some (l', d))"
  then show "int (length (hist @ [d])) = N + 1"
    using loop_head_steps[of m inp l hist n] by simp
  have "run_loop m l hist n =
      Some (Inr \<lparr>history = hist @ [d],
                 accepted = (l_current_state l' \<in> m_accept_states m),
                 steps = N,
                 exit = (if l_current_state l' \<in> m_accept_states m then Accept else Ceiling)\<rparr>)"
    using a assms(1) by (subst run_loop.simps) auto
  with a loop_head_run[of m inp l hist n]
  show "run m inp =
      Some (Inr \<lparr>history = hist @ [d],
                 accepted = (l_current_state l' \<in> m_accept_states m),
                 steps = N,
                 exit = (if l_current_state l' \<in> m_accept_states m then Accept else Ceiling)\<rparr>)"
    by simp
qed

text \<open>
  The first machine with the ceiling 3 on the input \<open>0000\<close>: the third step is executed
  from the top of the loop with two steps done.
\<close>

theorem step_ceiling_witness:
  "loop_head (ex_machine (Some 3)) ''0000'' (ex_locals [''0'', ''0'', ''0'', ''0''] 2)
     [ex_snapshot ''0000'' 0, ex_snapshot ''0000'' 1, ex_snapshot ''0000'' 2] 2 \<and>
   run (ex_machine (Some 3)) ''0000'' =
     Some (Inr \<lparr>history = [ex_snapshot ''0000'' 0, ex_snapshot ''0000'' 1, ex_snapshot ''0000'' 2,
                            ex_snapshot ''0000'' 3],
                accepted = False, steps = 3, exit = Ceiling\<rparr>)"
  using step_ceiling[of "ex_machine (Some 3)" 3 "''0000''"] ex_loop_head_2
    ex_step[of 2 "[''0'', ''0'', ''0'', ''0'']" "Some 3"]
  by (simp add: ex_machine_def ex_locals_def)

text \<open>
  The claim as it stands fails for the ceiling 0. The first machine with the ceiling 0 on
  the input \<open>0000\<close> stands at the top of the loop with 0 executed steps, has not halted
  and has a rule for the symbol under the head; the run then executes one step and returns
  two snapshots, not zero steps and one snapshot: the ceiling is tested only after a step.
\<close>

theorem step_ceiling_counterexample:
  "m_max_steps (ex_machine (Some 0)) = Some 0 \<and>
   loop_head (ex_machine (Some 0)) ''0000'' (ex_locals [''0'', ''0'', ''0'', ''0''] 0)
     [ex_snapshot ''0000'' 0] 0 \<and>
   step (ex_machine (Some 0)) (ex_locals [''0'', ''0'', ''0'', ''0''] 0) =
     Inr (Some (ex_locals [''0'', ''0'', ''0'', ''0''] 1, ex_snapshot ''0000'' 1)) \<and>
   run (ex_machine (Some 0)) ''0000'' =
     Some (Inr \<lparr>history = [ex_snapshot ''0000'' 0, ex_snapshot ''0000'' 1],
                accepted = False, steps = 1, exit = Ceiling\<rparr>)"
  using ex_enter_zeros[of "''0000''" "Some 0"] ex_step[of 0 "[''0'', ''0'', ''0'', ''0'']" "Some 0"]
    ex_run_zero_ceiling
  by (simp add: ex_machine_def)

text \<open>
  C5, invalid symbol. A run returns the error \<open>InvalidSymbol\<close> exactly when some
  character of the input is outside the input alphabet, whatever the rest of the engine
  is: the check comes before the tape, the first snapshot and the loop, and an error
  carries no trace. The message lists the offending characters in strictly increasing
  order, so each once. A run returns no engine: the engine is an argument that the
  source only reads, so a later run on it is a run on the same engine.
\<close>

theorem invalid_symbol_error:
  "((\<exists>msg. run m inp = Some (Inl (InvalidSymbol msg))) \<longleftrightarrow>
      (\<exists>ch\<in>set inp. [ch] \<notin> set (input_alphabet (m_config m)))) \<and>
   ((\<exists>ch\<in>set inp. [ch] \<notin> set (input_alphabet (m_config m))) \<longrightarrow>
      run m inp = Some (Inl (InvalidSymbol
        (''Input string contains symbols outside the input alphabet: '' @
         join '', '' (map (\<lambda>ch. [ch]) (sort (remdups (invalid_symbols m inp))))))) \<and>
      sorted_wrt (<) (sort (remdups (invalid_symbols m inp))) \<and>
      set (sort (remdups (invalid_symbols m inp))) =
        {ch \<in> set inp. [ch] \<notin> set (input_alphabet (m_config m))})"
proof -
  have ne: "invalid_symbols m inp \<noteq> [] \<longleftrightarrow>
      (\<exists>ch\<in>set inp. [ch] \<notin> set (input_alphabet (m_config m)))"
    by (auto simp: invalid_symbols_def filter_empty_conv)
  have s: "sorted_wrt (<) (sort (remdups (invalid_symbols m inp)))"
    by (simp add: strict_sorted_iff)
  have t: "set (sort (remdups (invalid_symbols m inp))) =
      {ch \<in> set inp. [ch] \<notin> set (input_alphabet (m_config m))}"
    by (auto simp: invalid_symbols_def)
  show ?thesis
    using ne s t run_InvalidSymbol_iff[of m inp]
    by (auto simp: run_def validate_input_string_def)
qed

theorem invalid_symbol_error_witness:
  "run (ex_machine None) ''2a02'' =
     Some (Inl (InvalidSymbol ''Input string contains symbols outside the input alphabet: 2, a''))"
  using invalid_symbol_error[of "ex_machine None" "''2a02''"]
  by (simp add: invalid_symbols_def ex_defs)

text \<open>
  C6, construction of the engine, as amended: for a definition whose declared state
  names are not empty. Construction fails with \<open>DuplicateTransition\<close> or with
  \<open>DanglingState\<close> whenever two rules share a signature or a rule has a source or a
  destination that is not declared: with \<open>DuplicateTransition\<close> when no rule has an
  undeclared state, with \<open>DanglingState\<close> when no two rules share a signature. When
  neither holds construction succeeds, and the table maps the signature of each rule to
  that rule and has no other entry.
\<close>

theorem engine_construction:
  assumes "\<forall>s\<in>set (states c). s \<noteq> []"
  shows "(shares_signature c \<or> undeclared_state c \<longrightarrow>
            (\<exists>e. Machine_init c ms = Inl e \<and> (is_DuplicateTransition e \<or> is_DanglingState e))) \<and>
         (shares_signature c \<and> \<not> undeclared_state c \<longrightarrow>
            (\<exists>e. Machine_init c ms = Inl e \<and> is_DuplicateTransition e)) \<and>
         (undeclared_state c \<and> \<not> shares_signature c \<longrightarrow>
            (\<exists>e. Machine_init c ms = Inl e \<and> is_DanglingState e)) \<and>
         (\<not> shares_signature c \<and> \<not> undeclared_state c \<longrightarrow>
            (\<exists>m. Machine_init c ms = Inr m \<and>
                 (\<forall>t\<in>set (transitions c). m_transition_map m (signature t) = Some t) \<and>
                 dom (m_transition_map m) = signature ` set (transitions c)))"
proof -
  have fails: "\<exists>e. Machine_init c ms = Inl e" if "shares_signature c \<or> undeclared_state c"
  proof (cases "Machine_init c ms")
    case (Inl e)
    then show ?thesis by blast
  next
    case (Inr m)
    with that Machine_init_Inr[OF assms, of ms m] show ?thesis by auto
  qed
  have builds: "\<exists>m. Machine_init c ms = Inr m \<and>
        (\<forall>t\<in>set (transitions c). m_transition_map m (signature t) = Some t) \<and>
        dom (m_transition_map m) = signature ` set (transitions c)"
    if "\<not> shares_signature c" "\<not> undeclared_state c"
  proof -
    let ?m = "\<lparr>m_config = c,
          m_states = (\<lambda>s. if s \<in> set (states c) then Some (State s) else None),
          m_accept_states = set (accept_states c), m_blank_symbol = blank_symbol c,
          m_max_steps = ms,
          m_transition_map = (\<lambda>k. find (\<lambda>t. signature t = k) (transitions c))\<rparr>"
    have i: "Machine_init c ms = Inr ?m"
      using that Machine_init_Inr[OF assms, of ms ?m] by simp
    have d: "distinct (map signature (transitions c))"
      using that(1) by (simp add: shares_signature_def)
    have l: "\<forall>t\<in>set (transitions c). m_transition_map ?m (signature t) = Some t"
      using find_signature[OF d] by simp
    have "dom (m_transition_map ?m) = signature ` set (transitions c)"
      by (auto simp: dom_def find_None_iff image_iff) metis+
    with i l show ?thesis by blast
  qed
  show ?thesis
    using fails builds Machine_init_Inl[OF assms, of ms] by (intro conjI impI) blast+
qed

text \<open>
  The first machine: its table holds the rule for \<open>(q0, 1)\<close> under that signature, and
  the signatures of its two rules are its only keys.
\<close>

theorem engine_construction_witness:
  "m_transition_map (ex_machine None) (signature ex_rule_1) = Some ex_rule_1 \<and>
   dom (m_transition_map (ex_machine None)) = signature ` set (transitions ex_config)"
  using engine_construction[of ex_config None] ex_machine_init[of None]
  by (simp add: shares_signature_def undeclared_state_def signature_def ex_defs)

text \<open>
  The claim as it stands fails twice. A definition with two rules of the signature
  \<open>(q0, 0)\<close>, the second with an undeclared destination, fails with
  \<open>DuplicateTransition\<close> and not with \<open>DanglingState\<close>: the loop over the rules stops at
  the first check that fails. And a definition that has neither defect but declares a
  state with the empty name does not build: \<^verbatim>\<open>State("")\<close> raises first.
\<close>

theorem engine_construction_counterexample:
  "validated ex_duplicate_config \<and>
   ex_rule_dangling \<in> set (transitions ex_duplicate_config) \<and>
   next_state ex_rule_dangling \<notin> set (states ex_duplicate_config) \<and>
   Machine_init ex_duplicate_config None = Inl (DuplicateTransition (''q0'', ''0'')) \<and>
   \<not> is_DanglingState (DuplicateTransition (''q0'', ''0'')) \<and>
   validated ex_unnamed_config \<and>
   \<not> shares_signature ex_unnamed_config \<and> \<not> undeclared_state ex_unnamed_config \<and>
   Machine_init ex_unnamed_config None = Inl InvalidStateName"
  using ex_duplicate_validated ex_unnamed_validated
  by (simp add: Machine_init_def State_post_init_def signature_def shares_signature_def
      undeclared_state_def ex_defs)

text \<open>
  C7, termination and the initial configuration. For a validated definition, an engine
  built from it with a finite step ceiling and an input over the input alphabet, the run
  returns a trace without raising, and the first snapshot of the trace has the initial
  state, the head at index 0 and the input as the tape, one blank for the empty input.
\<close>

theorem run_terminates:
  assumes "validated c" and "Machine_init c (Some N) = Inr m"
    and "\<forall>ch\<in>set inp. [ch] \<in> set (input_alphabet c)"
  shows "\<exists>out. run m inp = Some (Inr out) \<and> history out \<noteq> [] \<and>
           hd (history out) =
             \<lparr>state = initial_state c, tape = (if inp = [] then blank_symbol c else inp),
              head_position = 0\<rparr>"
proof -
  note f = Machine_init_fields[OF assms(2)]
  let ?d = "\<lparr>state = initial_state c, tape = (if inp = [] then blank_symbol c else inp),
              head_position = 0\<rparr>"
  let ?l = "\<lparr>l_tape = initialize_tape m inp, l_head_index = 0,
             l_current_state = initial_state c\<rparr>"
  have v: "validate_input_string m inp = Inr ()"
    using assms(3) f(1) by (simp add: validate_input_string_Inr)
  have s: "snapshot (initial_state c) (initialize_tape m inp) 0 = Inr ?d"
    using validated_initial_state[OF assms(1)] f(3)
    by (simp add: snapshot_Inr concat_initialize_tape)
  show ?thesis
  proof (cases "initial_state c \<in> m_accept_states m")
    case True
    with v s f(1) show ?thesis by (simp add: run_def)
  next
    case False
    from run_loop_returns[OF f(4) Machine_init_rules(1)[OF assms(1,2)] initialize_tape_in_range]
    obtain out where out: "run_loop m ?l [?d] 0 = Some (Inr out)" by blast
    from run_loop_history[OF out] have "history out \<noteq> []" "hd (history out) = ?d" by auto
    moreover have "run m inp = run_loop m ?l [?d] 0"
      using v s f(1) False by (simp add: run_def Let_def)
    ultimately show ?thesis using out by simp
  qed
qed

theorem run_terminates_witness:
  "\<exists>out. run (ex_machine (Some 3)) ''0000'' = Some (Inr out) \<and> history out \<noteq> [] \<and>
     hd (history out) = \<lparr>state = ''q0'', tape = ''0000'', head_position = 0\<rparr>"
  using run_terminates[OF ex_validated ex_machine_init, of "''0000''" 3]
  by (simp add: ex_defs)

text \<open>
  C8, determinism. With Python's objects in an explicit store: take two engines built
  from the same definition with the same step ceiling, at any addresses of any two stores
  (the same engine in a later store is a case of it), and any two orders in which the set
  of offending characters is iterated. On the same input the two runs return the same
  observable result, that is the same exception, or the same snapshots in the returned
  list with the same verdict, or neither returns; it is the result of the run on values.
  A run that returns leaves every object that existed when it was called as it was, the
  engine among them: it writes only the tape and the history that it creates. So a second
  run on the same engine, in the store that the first run has left, returns the same again.
\<close>

theorem run_store_deterministic:
  assumes "Machine_init c ms = Inr m1" and "Machine_init c ms = Inr m2"
    and "e1 < length s1" and "s1 ! e1 = Engine m1"
    and "e2 < length s2" and "s2 ! e2 = Engine m2"
    and "enumerates it1" and "enumerates it2"
  shows "map_option observe (run_store it1 s1 e1 inp) =
           map_option observe (run_store it2 s2 e2 inp) \<and>
         map_option observe (run_store it1 s1 e1 inp) = map_option returned (run m1 inp) \<and>
         (\<forall>x. run_store it1 s1 e1 inp = Some x \<longrightarrow>
            take (length s1) (final_store x) = s1 \<and>
            e1 < length (final_store x) \<and> final_store x ! e1 = Engine m1 \<and>
            map_option observe (run_store it2 (final_store x) e1 inp) = Some (observe x))"
proof -
  from assms(1,2) have eq: "m1 = m2" by simp
  note first = run_store_sim[OF assms(3,4,7), of inp]
  note other = run_store_sim[OF assms(5,6,8), of inp]
  have again: "take (length s1) (final_store x) = s1 \<and>
      e1 < length (final_store x) \<and> final_store x ! e1 = Engine m1 \<and>
      map_option observe (run_store it2 (final_store x) e1 inp) = Some (observe x)"
    if x: "run_store it1 s1 e1 inp = Some x" for x
  proof -
    from first x have t: "take (length s1) (final_store x) = s1" by blast
    have len: "length s1 \<le> length (final_store x)"
    proof (rule ccontr)
      assume "\<not> length s1 \<le> length (final_store x)"
      then have "length (take (length s1) (final_store x)) < length s1" by simp
      with t show False by simp
    qed
    with assms(3) have l: "e1 < length (final_store x)" by simp
    have "final_store x ! e1 = take (length s1) (final_store x) ! e1"
      using assms(3) by simp
    with t assms(4) have c: "final_store x ! e1 = Engine m1" by simp
    from run_store_sim[OF l c assms(8), of inp] first x
    have "map_option observe (run_store it2 (final_store x) e1 inp) = Some (observe x)"
      by simp
    with t l c show ?thesis by simp
  qed
  from first other eq again show ?thesis by simp
qed

text \<open>
  The engine of the first machine alone in a store, and the same engine behind a list of
  strings in another store, with two iteration orders, on the input \<open>01\<close>.
\<close>

theorem run_store_deterministic_witness:
  "map_option observe (run_store remdups [Engine (ex_machine None)] 0 ''01'') =
     map_option observe (run_store (remdups \<circ> rev) ex_store 1 ''01'') \<and>
   map_option observe (run_store remdups [Engine (ex_machine None)] 0 ''01'') =
     map_option returned (run (ex_machine None) ''01'') \<and>
   map_option observe (run_store (remdups \<circ> rev) ex_store 1 ''01'') =
     Some (Inr ([ex_snapshot ''01'' 0, ex_snapshot ''01'' 1,
                 \<lparr>state = ''qa'', tape = ''01B'', head_position = 2\<rparr>], True))"
proof -
  have ev: "map_option observe (run_store (remdups \<circ> rev) ex_store 1 ''01'') =
     Some (Inr ([ex_snapshot ''01'' 0, ex_snapshot ''01'' 1,
                 \<lparr>state = ''qa'', tape = ''01B'', head_position = 2\<rparr>], True))"
    by code_simp
  have 1: "0 < length [Engine (ex_machine None)]" "[Engine (ex_machine None)] ! 0 = Engine (ex_machine None)"
    by simp_all
  have 2: "1 < length ex_store" "ex_store ! 1 = Engine (ex_machine None)"
    by (simp_all add: ex_store_def)
  note t = run_store_deterministic[OF ex_machine_init ex_machine_init 1 2
      enumerates_remdups enumerates_remdups_rev, of "''01''"]
  show ?thesis
    by (intro conjI) (rule t[THEN conjunct1], rule t[THEN conjunct2, THEN conjunct1], rule ev)
qed

text \<open>
  C9, well-formed snapshots, as amended. For an engine built from a validated
  definition, every snapshot produced during a run, be it in the trace the run returns or
  in the history at the top of the loop of a run that may never return, has a state name
  that is not empty and a head index that is not negative; when the blank symbol of the
  definition is not the empty string, the head index is less than the length of the tape
  text.
\<close>

theorem snapshot_well_formed:
  assumes "validated c" and "Machine_init c ms = Inr m"
    and "(\<exists>out. run m inp = Some (Inr out) \<and> d \<in> set (history out)) \<or>
         (\<exists>l hist n. loop_head m inp l hist n \<and> d \<in> set hist)"
  shows "state d \<noteq> [] \<and> 0 \<le> head_position d \<and>
         (blank_symbol c \<noteq> [] \<longrightarrow> head_position d < int (length (tape d)))"
proof -
  note f = Machine_init_fields[OF assms(2)]
  note w = Machine_init_rules(2)[OF assms(1,2)]
  let ?q = "initial_state (m_config m)"
  let ?l = "\<lparr>l_tape = initialize_tape m inp, l_head_index = 0, l_current_state = ?q\<rparr>"
  from assms(3) have "well_formed m d"
  proof
    assume "\<exists>out. run m inp = Some (Inr out) \<and> d \<in> set (history out)"
    then obtain out where out: "run m inp = Some (Inr out)" and d: "d \<in> set (history out)"
      by blast
    from out obtain d0 where s: "snapshot ?q (initialize_tape m inp) 0 = Inr d0"
      and r: "if ?q \<in> m_accept_states m then history out = [d0]
              else run_loop m ?l [d0] 0 = Some (Inr out)"
      by (auto simp: run_def Let_def split: sum.splits if_splits)
    have d0: "well_formed m d0"
      using s by (auto simp: snapshot_Inr well_formed_def concat_initialize_tape)
    have "\<forall>d\<in>set (history out). well_formed m d"
    proof (cases "?q \<in> m_accept_states m")
      case True
      with r d0 show ?thesis by simp
    next
      case False
      with r have "run_loop m ?l [d0] 0 = Some (Inr out)" by simp
      from run_loop_well_formed[OF this w initialize_tape_in_range]
        initialize_tape_cells[of m inp] d0
      show ?thesis by simp
    qed
    with d show ?thesis by blast
  next
    assume "\<exists>l hist n. loop_head m inp l hist n \<and> d \<in> set hist"
    then obtain l hist n where "loop_head m inp l hist n" and "d \<in> set hist" by blast
    with loop_head_well_formed[OF _ w] show ?thesis by blast
  qed
  with f(3) show ?thesis by (auto simp: well_formed_def)
qed

theorem snapshot_well_formed_witness:
  "state (ex_snapshot ''0000'' 3) \<noteq> [] \<and> 0 \<le> head_position (ex_snapshot ''0000'' 3) \<and>
   head_position (ex_snapshot ''0000'' 3) < int (length (tape (ex_snapshot ''0000'' 3)))"
  using snapshot_well_formed[OF ex_validated ex_machine_init,
      of "Some 3" "''0000''" "ex_snapshot ''0000'' 3"] ex_run_ceiling
  by (simp add: ex_defs)

text \<open>
  The claim as it stands fails for a definition whose blank symbol is the empty
  string, which the validation of the definition admits. On the input \<open>0\<close> the step to the
  right appends an empty cell: the second snapshot has the tape text \<open>0\<close>, which is not
  empty, and the head index 1, which is not less than its length.
\<close>

theorem snapshot_well_formed_counterexample:
  "validated ex_blank_config \<and>
   run_config ex_blank_config None ''0'' =
     Some (Inr \<lparr>history = [\<lparr>state = ''q0'', tape = ''0'', head_position = 0\<rparr>,
                            \<lparr>state = ''q0'', tape = ''0'', head_position = 1\<rparr>],
                accepted = False, steps = 1, exit = Omission\<rparr>) \<and>
   tape \<lparr>state = ''q0'', tape = ''0'', head_position = 1\<rparr> \<noteq> [] \<and>
   \<not> head_position \<lparr>state = ''q0'', tape = ''0'', head_position = 1\<rparr>
       < int (length (tape \<lparr>state = ''q0'', tape = ''0'', head_position = 1\<rparr>))"
proof -
  have "run_config ex_blank_config None ''0'' =
     Some (Inr \<lparr>history = [\<lparr>state = ''q0'', tape = ''0'', head_position = 0\<rparr>,
                            \<lparr>state = ''q0'', tape = ''0'', head_position = 1\<rparr>],
                accepted = False, steps = 1, exit = Omission\<rparr>)"
    by code_simp
  with ex_blank_validated show ?thesis by simp
qed

text \<open>
  C10, the ceiling exit rejects. Whenever a run returns through the return statement
  of the step ceiling (line 105), its verdict is rejected: the test for an accept state
  of line 99 has returned before, so the state is not an accept state there.
\<close>

theorem ceiling_exit_rejects:
  assumes "run m inp = Some (Inr out)" and "exit out = Ceiling"
  shows "\<not> accepted out"
proof -
  from assms obtain l hist n where "run_loop m l hist n = Some (Inr out)"
    by (auto simp: run_def Let_def split: sum.splits if_splits)
  from run_loop_exit(4)[OF this assms(2)] show ?thesis .
qed

theorem ceiling_exit_rejects_witness:
  "run (ex_machine (Some 3)) ''0000'' =
     Some (Inr \<lparr>history = [ex_snapshot ''0000'' 0, ex_snapshot ''0000'' 1, ex_snapshot ''0000'' 2,
                            ex_snapshot ''0000'' 3],
                accepted = False, steps = 3, exit = Ceiling\<rparr>) \<and>
   \<not> accepted \<lparr>history = [ex_snapshot ''0000'' 0, ex_snapshot ''0000'' 1,
                            ex_snapshot ''0000'' 2, ex_snapshot ''0000'' 3],
                accepted = False, steps = 3, exit = Ceiling\<rparr>"
  using ceiling_exit_rejects[OF ex_run_ceiling] ex_run_ceiling by simp
end
